theory Spec2Isabelle
  imports Main "HOL-Library.Sublist"
begin

section \<open>JavaScript values\<close>

text \<open>
  The values that flow through \<^verbatim>\<open>fetchAdvisories\<close>: what \<^verbatim>\<open>JSON.parse\<close>
  yields, plus \<^verbatim>\<open>undefined\<close> for a property that is absent. Numbers are kept as
  integers (the program does no arithmetic on the numbers of a record). An object is the
  list of its own properties in insertion order; the first entry of a name is the property.
\<close>

datatype jsval =
    JUndefined
  | JNull
  | JBool bool
  | JNum int
  | JStr string
  | JArr "jsval list"
  | JObj "(string \<times> jsval) list"

text \<open>What a \<^verbatim>\<open>throw\<close> carries: the error of a failed request (rethrown by the
  fetch loop), or the \<^verbatim>\<open>TypeError\<close> of reading a property of \<^verbatim>\<open>undefined\<close> or
  \<^verbatim>\<open>null\<close>, or of calling something that is not a function.\<close>

type_synonym headers = "(string \<times> string) list"

datatype failure =
    HttpError nat headers
  | NetworkError

datatype error =
    RequestFailed failure
  | TypeError

text \<open>\<^verbatim>\<open>v.name\<close> for the property names the program reads: own properties of an object,
  \<^verbatim>\<open>length\<close> of an array or a string, \<^verbatim>\<open>undefined\<close> on any other value, and a
  \<^verbatim>\<open>TypeError\<close> on \<^verbatim>\<open>undefined\<close> and \<^verbatim>\<open>null\<close>.\<close>

fun get_prop :: "jsval \<Rightarrow> string \<Rightarrow> error + jsval" where
  "get_prop JUndefined name = Inl TypeError"
| "get_prop JNull name = Inl TypeError"
| "get_prop (JObj props) name =
     (case map_of props name of None \<Rightarrow> Inr JUndefined | Some v \<Rightarrow> Inr v)"
| "get_prop (JArr xs) name =
     (if name = ''length'' then Inr (JNum (int (length xs))) else Inr JUndefined)"
| "get_prop (JStr s) name =
     (if name = ''length'' then Inr (JNum (int (length s))) else Inr JUndefined)"
| "get_prop (JBool b) name = Inr JUndefined"
| "get_prop (JNum n) name = Inr JUndefined"

text \<open>\<^verbatim>\<open>obj.name = v\<close> on an object: the property keeps its place when it exists and is
  added at the end otherwise.\<close>

fun set_prop :: "(string \<times> jsval) list \<Rightarrow> string \<Rightarrow> jsval \<Rightarrow> (string \<times> jsval) list" where
  "set_prop [] name v = [(name, v)]"
| "set_prop ((k, w) # props) name v =
     (if k = name then (k, v) # props else (k, w) # set_prop props name v)"

text \<open>\<^verbatim>\<open>Array.isArray\<close>.\<close>

fun is_array :: "jsval \<Rightarrow> bool" where
  "is_array (JArr xs) = True"
| "is_array v = False"

text \<open>\<^verbatim>\<open>xs.map(f)\<close> with a callback that may throw: the first throw ends the map.\<close>

fun map_throwing :: "('a \<Rightarrow> error + 'b) \<Rightarrow> 'a list \<Rightarrow> error + 'b list" where
  "map_throwing f [] = Inr []"
| "map_throwing f (x # xs) =
     (case f x of
        Inl e \<Rightarrow> Inl e
      | Inr y \<Rightarrow> (case map_throwing f xs of Inl e \<Rightarrow> Inl e | Inr ys \<Rightarrow> Inr (y # ys)))"

text \<open>\<^verbatim>\<open>v.map(f)\<close> on a value: only an array has \<^verbatim>\<open>map\<close>; parsed JSON holds no
  functions, so on every other value the call is a \<^verbatim>\<open>TypeError\<close>.\<close>

fun js_map :: "(jsval \<Rightarrow> error + jsval) \<Rightarrow> jsval \<Rightarrow> error + jsval list" where
  "js_map f (JArr xs) = map_throwing f xs"
| "js_map f v = Inl TypeError"

section \<open>Rate-limit wait\<close>

text \<open>
  \<^verbatim>\<open>parseInt(s)\<close> with no radix: leading white space is skipped, a sign is read, a
  \<^verbatim>\<open>0x\<close> prefix selects base 16, and the longest run of digits is the value;
  \<^verbatim>\<open>NaN\<close> (here \<open>None\<close>) when there is no digit. The result is exact here where
  JavaScript rounds to a double. White space is the space, the controls TAB, LF, VT, FF
  and CR, and the no-break space U+00A0; a character of the model is one of 256 code
  units, so the white space of JavaScript beyond U+00FF does not occur.
\<close>

definition is_js_space :: "char \<Rightarrow> bool" where
  "is_js_space c =
     (c \<in> set [CHR '' '', CHR 0x09, CHR 0x0A, CHR 0x0B, CHR 0x0C, CHR 0x0D, CHR 0xA0])"

definition digit_value :: "char \<Rightarrow> int option" where
  "digit_value c =
     (let n = of_char c :: int in
      if 48 \<le> n \<and> n \<le> 57 then Some (n - 48)
      else if 97 \<le> n \<and> n \<le> 122 then Some (n - 87)
      else if 65 \<le> n \<and> n \<le> 90 then Some (n - 55)
      else None)"

fun read_digits :: "int \<Rightarrow> string \<Rightarrow> int option \<Rightarrow> int option" where
  "read_digits radix [] acc = acc"
| "read_digits radix (c # cs) acc =
     (case digit_value c of
        None \<Rightarrow> acc
      | Some d \<Rightarrow>
          if d < radix
          then read_digits radix cs (Some ((case acc of None \<Rightarrow> 0 | Some a \<Rightarrow> a) * radix + d))
          else acc)"

definition strip_sign :: "string \<Rightarrow> int \<times> string" where
  "strip_sign s =
     (case s of
        c # cs \<Rightarrow> if c = CHR ''-'' then (-1, cs) else if c = CHR ''+'' then (1, cs) else (1, s)
      | [] \<Rightarrow> (1, s))"

definition strip_radix :: "string \<Rightarrow> int \<times> string" where
  "strip_radix s =
     (case s of
        a # b # cs \<Rightarrow> if a = CHR ''0'' \<and> (b = CHR ''x'' \<or> b = CHR ''X'') then (16, cs) else (10, s)
      | _ \<Rightarrow> (10, s))"

definition parseInt :: "string option \<Rightarrow> int option" where
  "parseInt v =
     (case v of
        None \<Rightarrow> None
      | Some s \<Rightarrow>
          (let (sign, s1) = strip_sign (dropWhile is_js_space s);
               (radix, s2) = strip_radix s1
           in map_option (\<lambda>n. sign * n) (read_digits radix s2 None)))"

text \<open>A header read off \<^verbatim>\<open>error.response.headers\<close>: a string, or \<^verbatim>\<open>undefined\<close>
  (\<open>None\<close>) when the response has no such header. Only a non-empty string is truthy.\<close>

definition header :: "headers \<Rightarrow> string \<Rightarrow> string option" where
  "header hs name = map_of hs name"

fun truthy_header :: "string option \<Rightarrow> bool" where
  "truthy_header None = False"
| "truthy_header (Some s) = (s \<noteq> [])"

text \<open>
  \<^verbatim>\<open>const retryAfter = h['retry-after'] || h['x-ratelimit-reset']
       ? (parseInt(h['x-ratelimit-reset']) - Math.floor(Date.now() / 1000)) : 60;\<close>
  The conditional operator binds weaker than \<^verbatim>\<open>||\<close>, so the whole disjunction is
  the condition. \<open>None\<close> is \<^verbatim>\<open>NaN\<close>.
\<close>

definition retryAfter :: "headers \<Rightarrow> int \<Rightarrow> int option" where
  "retryAfter hs now =
     (if truthy_header (header hs ''retry-after'') \<or> truthy_header (header hs ''x-ratelimit-reset'')
      then map_option (\<lambda>reset. reset - now) (parseInt (header hs ''x-ratelimit-reset''))
      else Some 60)"

text \<open>\<^verbatim>\<open>const waitTime = (retryAfter > 0 && retryAfter < 3600) ? retryAfter : 60;\<close>
  Every comparison with \<^verbatim>\<open>NaN\<close> is false.\<close>

definition waitTime :: "headers \<Rightarrow> int \<Rightarrow> int" where
  "waitTime hs now =
     (case retryAfter hs now of
        None \<Rightarrow> 60
      | Some r \<Rightarrow> if 0 < r \<and> r < 3600 then r else 60)"


section \<open>Records of the remote API\<close>

text \<open>
  One advisory as the remote endpoint returns it. A field the program reads through is
  typed by the endpoint's schema; a field it tests for presence is an \<open>option\<close>
  (\<open>None\<close>: absent or \<^verbatim>\<open>null\<close>); a field it only copies is a \<open>jsval\<close>. The
  \<^verbatim>\<open>package\<close> of a vulnerability entry may be \<^verbatim>\<open>null\<close> in the schema.
\<close>

record package =
  name :: string
  ecosystem :: string

record vulnerability =
  package :: "package option"
  vulnerable_version_range :: jsval
  first_patched_version :: jsval

record identifier_entry =
  id_value :: jsval

record cwe =
  cwe_id :: jsval

record cvss_info =
  score :: jsval

record advisory =
  ghsa_id :: string
  published_at :: jsval
  updated_at :: jsval
  withdrawn_at :: jsval
  severity :: jsval
  summary :: jsval
  description :: jsval
  references :: jsval
  html_url :: jsval
  url :: jsval
  vulnerabilities :: "vulnerability list option"
  identifiers :: "identifier_entry list option"
  cwes :: "cwe list option"
  cvss :: "cvss_info option"

text \<open>What \<^verbatim>\<open>await axios.get(API_URL, ...)\<close> does: it returns a page of advisories
  (\<^verbatim>\<open>response.data\<close>) or throws. A thrown error carries \<^verbatim>\<open>error.response\<close> (status
  and headers) when the server answered, and none when the request itself failed.\<close>

datatype response =
    Ok "advisory list"
  | Failed failure

text \<open>
  Everything outside the program that it reads:
  \<^item> \<open>remote i p\<close>: the outcome of the \<open>i\<close>-th request of the run (counted from 0), made
    for page \<open>p\<close>;
  \<^item> \<open>now_s i\<close>: \<^verbatim>\<open>Math.floor(Date.now() / 1000)\<close> when the failure of request \<open>i\<close>
    is handled;
  \<^item> \<open>to_time v\<close>: the time value of \<^verbatim>\<open>new Date(v)\<close> in milliseconds, \<open>None\<close> for an
    invalid date;
  \<^item> \<open>oneYearAgo\<close>: the time value of the cutoff date computed when the run starts;
  \<^item> \<open>iso_start\<close>, \<open>iso_commit\<close>: \<^verbatim>\<open>new Date().toISOString()\<close> when the default
    snapshot is built and when the snapshot is saved;
  \<^item> \<open>json_parse\<close> (\<open>None\<close>: it throws) and \<open>json_stringify\<close>.
\<close>

record env =
  remote :: "nat \<Rightarrow> nat \<Rightarrow> response"
  now_s :: "nat \<Rightarrow> int"
  to_time :: "jsval \<Rightarrow> int option"
  oneYearAgo :: int
  iso_start :: string
  iso_commit :: string
  json_parse :: "string \<Rightarrow> jsval option"
  json_stringify :: "jsval \<Rightarrow> string"

section \<open>The fetch loop\<close>

text \<open>The variables of the loop, and two logs kept for the proofs: the page number of
  every request made and the delay in milliseconds of every \<^verbatim>\<open>setTimeout\<close> awaited, both
  oldest first.\<close>

record fstate =
  allNewAdvisories :: "advisory list"
  page :: nat
  keepFetching :: bool
  requests :: "nat list"
  sleeps :: "int list"

definition initial :: fstate where
  "initial = \<lparr>allNewAdvisories = [], page = 1, keepFetching = True, requests = [], sleeps = []\<rparr>"

text \<open>\<^verbatim>\<open>publishedAt < oneYearAgo\<close> on two dates: false when the left one is invalid.\<close>

definition older :: "env \<Rightarrow> advisory \<Rightarrow> bool" where
  "older w a = (case to_time w (published_at a) of None \<Rightarrow> False | Some t \<Rightarrow> t < oneYearAgo w)"

text \<open>The \<^verbatim>\<open>for (const advisory of data)\<close> loop: the accepted advisories and the value
  of \<^verbatim>\<open>keepFetching\<close> when it ends.\<close>

fun scan_page :: "env \<Rightarrow> advisory list \<Rightarrow> advisory list \<Rightarrow> advisory list \<times> bool" where
  "scan_page w acc [] = (acc, True)"
| "scan_page w acc (a # as) =
     (if older w a then (acc, False) else scan_page w (acc @ [a]) as)"

text \<open>How one pass through the body of \<^verbatim>\<open>while (keepFetching)\<close> ends: back at the test
  of the loop, at its \<^verbatim>\<open>break\<close>, or with a \<^verbatim>\<open>throw\<close>.\<close>

datatype step =
    Next fstate
  | Break fstate
  | Throw error fstate

definition on_page :: "env \<Rightarrow> fstate \<Rightarrow> advisory list \<Rightarrow> step" where
  "on_page w st data =
     (if length data = 0 then Break st
      else
        (let (acc, keep) = scan_page w (allNewAdvisories st) data;
             st1 = st\<lparr>allNewAdvisories := acc, keepFetching := keep\<rparr>
         in if keepFetching st1
            then
              (let st2 = st1\<lparr>page := page st1 + 1\<rparr>
               in if page st2 > 500
                  then Next (st2\<lparr>keepFetching := False\<rparr>)
                  else Next (st2\<lparr>sleeps := sleeps st2 @ [1000]\<rparr>))
            else Next st1))"

definition on_error :: "env \<Rightarrow> nat \<Rightarrow> fstate \<Rightarrow> failure \<Rightarrow> step" where
  "on_error w i st f =
     (case f of
        HttpError status hs \<Rightarrow>
          if status = 429 \<or> status = 403
          then Next (st\<lparr>sleeps := sleeps st @ [waitTime hs (now_s w i) * 1000]\<rparr>)
          else Throw (RequestFailed f) st
      | NetworkError \<Rightarrow> Throw (RequestFailed f) st)"

definition iteration :: "env \<Rightarrow> fstate \<Rightarrow> step" where
  "iteration w st =
     (let i = length (requests st);
          st1 = st\<lparr>requests := requests st @ [page st]\<rparr>
      in case remote w i (page st) of
           Ok data \<Rightarrow> on_page w st1 data
         | Failed f \<Rightarrow> on_error w i st1 f)"

text \<open>The loop may go on for ever (the server may answer 429 each time), so it runs on
  fuel: one unit per pass. \<open>OutOfFuel\<close> is a run that is still going.\<close>

datatype outcome =
    OutOfFuel fstate
  | Thrown error fstate
  | Finished fstate

fun fetch_loop :: "env \<Rightarrow> nat \<Rightarrow> fstate \<Rightarrow> outcome" where
  "fetch_loop w 0 st = (if keepFetching st then OutOfFuel st else Finished st)"
| "fetch_loop w (Suc n) st =
     (if keepFetching st
      then (case iteration w st of
              Next st' \<Rightarrow> fetch_loop w n st'
            | Break st' \<Rightarrow> Finished st'
            | Throw e st' \<Rightarrow> Thrown e st')
      else Finished st)"

section \<open>The transformer\<close>

text \<open>The callback of \<^verbatim>\<open>allNewAdvisories.map\<close>. Reading \<^verbatim>\<open>.name\<close> of a
  \<^verbatim>\<open>package\<close> that is \<^verbatim>\<open>null\<close> throws.\<close>

definition package_fields :: "advisory \<Rightarrow> error + string \<times> string \<times> jsval list" where
  "package_fields a =
     (case vulnerabilities a of
        None \<Rightarrow> Inr (''unknown'', ''npm'', [])
      | Some [] \<Rightarrow> Inr (''unknown'', ''npm'', [])
      | Some (v # vs) \<Rightarrow>
          (case package v of
             None \<Rightarrow> Inl TypeError
           | Some p \<Rightarrow> Inr (name p, ecosystem p, map vulnerable_version_range (v # vs))))"

definition firstPatchedVersion :: "advisory \<Rightarrow> jsval" where
  "firstPatchedVersion a =
     (case vulnerabilities a of
        None \<Rightarrow> JNull
      | Some [] \<Rightarrow> JNull
      | Some (v # vs) \<Rightarrow> first_patched_version v)"

definition transform :: "advisory \<Rightarrow> error + jsval" where
  "transform a =
     (case package_fields a of
        Inl e \<Rightarrow> Inl e
      | Inr (packageName, eco, affectedVersionRanges) \<Rightarrow>
          Inr (JObj
            [(''id'', JStr (''github:'' @ ghsa_id a @ '':'' @ eco @ '':'' @ packageName)),
             (''source'', JStr ''github''),
             (''sourceId'', JStr (ghsa_id a)),
             (''ecosystem'', JStr eco),
             (''packageName'', JStr packageName),
             (''kind'', JStr ''malware''),
             (''severity'', severity a),
             (''summary'', summary a),
             (''description'', description a),
             (''affectedVersionRanges'', JArr affectedVersionRanges),
             (''firstPatchedVersion'', firstPatchedVersion a),
             (''aliases'', JArr (case identifiers a of None \<Rightarrow> [] | Some ids \<Rightarrow> map id_value ids)),
             (''cwes'', JArr (case cwes a of None \<Rightarrow> [] | Some cs \<Rightarrow> map cwe_id cs)),
             (''publishedAt'', published_at a),
             (''updatedAt'', updated_at a),
             (''withdrawnAt'', withdrawn_at a),
             (''references'', references a),
             (''metadata'', JObj
                [(''htmlUrl'', html_url a),
                 (''apiUrl'', url a),
                 (''cvssScore'', (case cvss a of None \<Rightarrow> JNull | Some c \<Rightarrow> score c))])]))"

section \<open>Loading, merging and saving the snapshot\<close>

text \<open>The data directory and the snapshot file: the directory is missing, or it is there
  without the file, or the file is there with its content.\<close>

datatype files =
    NoDir
  | NoFile
  | File string

fun file_content :: "files \<Rightarrow> string option" where
  "file_content (File c) = Some c"
| "file_content fs = None"

text \<open>\<^verbatim>\<open>if (!fs.existsSync(DATA_DIR)) fs.mkdirSync(DATA_DIR, ...)\<close>.\<close>

fun ensure_dir :: "files \<Rightarrow> files" where
  "ensure_dir NoDir = NoFile"
| "ensure_dir fs = fs"

text \<open>The lines written with \<^verbatim>\<open>console.error\<close>. The progress lines of
  \<^verbatim>\<open>console.log\<close> are left out.\<close>

datatype logline =
    ParseFailed
  | RunFailed error

definition default_snapshot :: "env \<Rightarrow> jsval" where
  "default_snapshot w =
     JObj [(''schemaVersion'', JStr ''1.0''),
           (''generatedAt'', JStr (iso_start w)),
           (''advisories'', JArr [])]"

definition load :: "env \<Rightarrow> files \<Rightarrow> jsval \<times> logline list" where
  "load w fs =
     (case fs of
        File fileContent \<Rightarrow>
          (case json_parse w fileContent of
             None \<Rightarrow> (default_snapshot w, [ParseFailed])
           | Some parsed \<Rightarrow>
               if is_array parsed then (default_snapshot w, []) else (parsed, []))
      | _ \<Rightarrow> (default_snapshot w, []))"

text \<open>The elements of an array value, and \<^verbatim>\<open>existingData.name = v\<close> on the snapshot
  object. Both are used only behind a successful \<^verbatim>\<open>existingData.advisories.map\<close>,
  where the snapshot is an object and its \<^verbatim>\<open>advisories\<close> an array.\<close>

fun elements :: "jsval \<Rightarrow> jsval list" where
  "elements (JArr xs) = xs"
| "elements v = []"

fun assign :: "jsval \<Rightarrow> string \<Rightarrow> jsval \<Rightarrow> jsval" where
  "assign (JObj props) n v = JObj (set_prop props n v)"
| "assign d n v = d"

text \<open>\<^verbatim>\<open>a.sourceId\<close>, the identity key of a record.\<close>

definition sourceId :: "jsval \<Rightarrow> error + jsval" where
  "sourceId a = get_prop a ''sourceId''"

text \<open>
  The \<^verbatim>\<open>for (const advisory of transformedAdvisories)\<close> loop over the array
  \<^verbatim>\<open>existingData.advisories\<close>, the set \<^verbatim>\<open>existingIds\<close> (its members in insertion
  order) and \<^verbatim>\<open>addedCount\<close>. \<^verbatim>\<open>Set.has\<close> compares with SameValueZero: equality of
  values on strings, numbers, booleans, \<^verbatim>\<open>null\<close> and \<^verbatim>\<open>undefined\<close>, identity on
  arrays and objects. The loop tests equality of values. Every key it looks up is the
  \<^verbatim>\<open>sourceId\<close> the transformer wrote, the string \<^verbatim>\<open>ghsa_id\<close>, and a string equals
  no array and no object, so on the batches of a run the test is that of \<^verbatim>\<open>Set.has\<close>;
  for a batch whose keys are arrays or objects the model has no identities to compare.
\<close>

fun merge_loop ::
  "jsval list \<Rightarrow> jsval list \<Rightarrow> nat \<Rightarrow> jsval list \<Rightarrow> error + jsval list \<times> jsval list \<times> nat" where
  "merge_loop advs existingIds addedCount [] = Inr (advs, existingIds, addedCount)"
| "merge_loop advs existingIds addedCount (t # ts) =
     (case sourceId t of
        Inl e \<Rightarrow> Inl e
      | Inr k \<Rightarrow>
          if k \<in> set existingIds
          then merge_loop advs existingIds addedCount ts
          else merge_loop (advs @ [t]) (existingIds @ [k]) (addedCount + 1) ts)"

definition merge :: "jsval \<Rightarrow> jsval list \<Rightarrow> error + jsval \<times> nat" where
  "merge existingData transformed =
     (case get_prop existingData ''advisories'' of
        Inl e \<Rightarrow> Inl e
      | Inr advs \<Rightarrow>
          (case js_map sourceId advs of
             Inl e \<Rightarrow> Inl e
           | Inr existingIds \<Rightarrow>
               (case merge_loop (elements advs) existingIds 0 transformed of
                  Inl e \<Rightarrow> Inl e
                | Inr (advs', ids', addedCount) \<Rightarrow>
                    Inr (assign existingData ''advisories'' (JArr advs'), addedCount))))"

text \<open>The end of the run: the new state of the files and the texts handed to
  \<^verbatim>\<open>fs.writeFileSync\<close>.\<close>

definition commit :: "env \<Rightarrow> jsval \<Rightarrow> nat \<Rightarrow> files \<Rightarrow> files \<times> string list" where
  "commit w existingData addedCount fs =
     (if addedCount > 0
      then (let saved = json_stringify w (assign existingData ''generatedAt'' (JStr (iso_commit w)))
            in (File saved, [saved]))
      else (fs, []))"

section \<open>The whole run\<close>

text \<open>What a finished run leaves: the exit code of the process, the files, the texts
  written to the snapshot file and the lines on the error console.\<close>

record result =
  exit_code :: nat
  files_after :: files
  written :: "string list"
  console_error :: "logline list"

text \<open>The \<^verbatim>\<open>catch\<close> around the whole body: log and \<^verbatim>\<open>process.exit(1)\<close>.\<close>

definition aborted :: "files \<Rightarrow> logline list \<Rightarrow> error \<Rightarrow> result" where
  "aborted fs logs e =
     \<lparr>exit_code = 1, files_after = fs, written = [], console_error = logs @ [RunFailed e]\<rparr>"

text \<open>\<open>None\<close> is a run that is still fetching when the fuel is spent.\<close>

definition run :: "env \<Rightarrow> nat \<Rightarrow> files \<Rightarrow> result option" where
  "run w fuel fs =
     (case fetch_loop w fuel initial of
        OutOfFuel st \<Rightarrow> None
      | Thrown e st \<Rightarrow> Some (aborted fs [] e)
      | Finished st \<Rightarrow>
          (case map_throwing transform (allNewAdvisories st) of
             Inl e \<Rightarrow> Some (aborted fs [] e)
           | Inr transformedAdvisories \<Rightarrow>
               (let fs1 = ensure_dir fs;
                    (existingData, logs) = load w fs1
                in case merge existingData transformedAdvisories of
                     Inl e \<Rightarrow> Some (aborted fs1 logs e)
                   | Inr (merged, addedCount) \<Rightarrow>
                       (let (fs2, texts) = commit w merged addedCount fs1
                        in Some \<lparr>exit_code = 0, files_after = fs2, written = texts,
                                 console_error = logs\<rparr>))))"

section \<open>The second copy of the function\<close>

text \<open>
  The repository holds a second copy of \<^verbatim>\<open>fetchAdvisories\<close>, in
  \<^verbatim>\<open>src/unnamed/part_000\<close>. It differs from the one modelled above in two places: after
  a page of accepted records it advances and pauses with no test of the page number, and
  it saves under another condition. Its rate-limit handling, transformer, loader and
  merge are the same text. The two places are modelled here to state the difference.
\<close>

definition on_page_part000 :: "env \<Rightarrow> fstate \<Rightarrow> advisory list \<Rightarrow> step" where
  "on_page_part000 w st data =
     (if length data = 0 then Break st
      else
        (let (acc, keep) = scan_page w (allNewAdvisories st) data;
             st1 = st\<lparr>allNewAdvisories := acc, keepFetching := keep\<rparr>
         in if keepFetching st1
            then Next (st1\<lparr>page := page st1 + 1, sleeps := sleeps st1 @ [1000]\<rparr>)
            else Next st1))"

definition iteration_part000 :: "env \<Rightarrow> fstate \<Rightarrow> step" where
  "iteration_part000 w st =
     (let i = length (requests st);
          st1 = st\<lparr>requests := requests st @ [page st]\<rparr>
      in case remote w i (page st) of
           Ok data \<Rightarrow> on_page_part000 w st1 data
         | Failed f \<Rightarrow> on_error w i st1 f)"

fun fetch_loop_part000 :: "env \<Rightarrow> nat \<Rightarrow> fstate \<Rightarrow> outcome" where
  "fetch_loop_part000 w 0 st = (if keepFetching st then OutOfFuel st else Finished st)"
| "fetch_loop_part000 w (Suc n) st =
     (if keepFetching st
      then (case iteration_part000 w st of
              Next st' \<Rightarrow> fetch_loop_part000 w n st'
            | Break st' \<Rightarrow> Finished st'
            | Throw e st' \<Rightarrow> Thrown e st')
      else Finished st)"

text \<open>Its saving step: \<^verbatim>\<open>generatedAt\<close> is set before the test, and the file is also
  written when the stored collection and the batch differ in length.\<close>

definition commit_part000 ::
  "env \<Rightarrow> jsval \<Rightarrow> nat \<Rightarrow> jsval list \<Rightarrow> files \<Rightarrow> files \<times> string list" where
  "commit_part000 w existingData addedCount transformedAdvisories fs =
     (let updated = assign existingData ''generatedAt'' (JStr (iso_commit w));
          stored = (case get_prop updated ''advisories'' of
                      Inl e \<Rightarrow> []
                    | Inr advs \<Rightarrow> elements advs)
      in if addedCount > 0 \<or> length stored \<noteq> length transformedAdvisories
         then (let saved = json_stringify w updated in (File saved, [saved]))
         else (fs, []))"

section \<open>Notions used in the statements\<close>

text \<open>The state an outcome of the loop carries, and whether the loop is still going.\<close>

fun final :: "outcome \<Rightarrow> fstate" where
  "final (OutOfFuel st) = st"
| "final (Thrown e st) = st"
| "final (Finished st) = st"

fun running :: "outcome \<Rightarrow> bool" where
  "running (OutOfFuel st) = True"
| "running r = False"

text \<open>The answers the loop retries: \<^verbatim>\<open>error.response\<close> with status 429 or 403.\<close>

definition rate_limited :: "response \<Rightarrow> bool" where
  "rate_limited r =
     (case r of
        Failed (HttpError status hs) \<Rightarrow> status = 429 \<or> status = 403
      | _ \<Rightarrow> False)"

text \<open>What holds of the loop's state all along: every page asked for lies between 1 and
  500 and is at most the current page, pages are asked for in ascending order, the loop
  goes on only while the current page is at most 500, and no accepted advisory is older
  than the cutoff.\<close>

definition paged :: "env \<Rightarrow> fstate \<Rightarrow> bool" where
  "paged w st \<longleftrightarrow>
     (\<forall>p \<in> set (requests st). 1 \<le> p \<and> p \<le> 500 \<and> p \<le> page st)
     \<and> sorted (requests st)
     \<and> 1 \<le> page st
     \<and> (keepFetching st \<longrightarrow> page st \<le> 500)
     \<and> (\<forall>a \<in> set (allNewAdvisories st). \<not> older w a)"

fun state_of :: "step \<Rightarrow> fstate" where
  "state_of (Next st) = st"
| "state_of (Break st) = st"
| "state_of (Throw e st) = st"

text \<open>The shape the merge step relies on: an object whose \<^verbatim>\<open>advisories\<close> property
  is an array.\<close>

definition has_advisories_list :: "jsval \<Rightarrow> bool" where
  "has_advisories_list v =
     (case v of
        JObj props \<Rightarrow> (case map_of props ''advisories'' of Some (JArr xs) \<Rightarrow> True | _ \<Rightarrow> False)
      | _ \<Rightarrow> False)"

section \<open>Sample inputs\<close>

text \<open>Small concrete inputs on which the theorems below are instantiated: an advisory
  published at a given time value, a vulnerability entry, a stored record, a snapshot, a
  parser that knows three file contents (a legacy list, an empty object and a snapshot
  holding one record), a printer that shows the time stamp of a snapshot and the keys of
  its records, and a world whose server answers from a script (an empty page once the
  script is used up), whose dates are numbers and whose cutoff is the time value 1000.\<close>

definition sample_advisory :: "string \<Rightarrow> int \<Rightarrow> advisory" where
  "sample_advisory g t =
     \<lparr>ghsa_id = g, published_at = JNum t, updated_at = JNull, withdrawn_at = JNull,
      severity = JStr ''high'', summary = JStr ''s'', description = JStr ''d'',
      references = JArr [], html_url = JNull, url = JNull,
      vulnerabilities = None, identifiers = None, cwes = None, cvss = None\<rparr>"

definition sample_vulnerability :: "string \<Rightarrow> string \<Rightarrow> vulnerability" where
  "sample_vulnerability p r =
     \<lparr>package = Some \<lparr>name = p, ecosystem = ''npm''\<rparr>,
      vulnerable_version_range = JStr r, first_patched_version = JNull\<rparr>"

definition sample_record :: "string \<Rightarrow> jsval" where
  "sample_record g = JObj [(''sourceId'', JStr g), (''kind'', JStr ''malware'')]"

definition sample_snapshot :: "jsval list \<Rightarrow> jsval" where
  "sample_snapshot xs =
     JObj [(''schemaVersion'', JStr ''1.0''), (''generatedAt'', JStr ''then''),
           (''advisories'', JArr xs)]"

definition sample_time :: "jsval \<Rightarrow> int option" where
  "sample_time v = (case v of JNum t \<Rightarrow> Some t | _ \<Rightarrow> None)"

definition sample_parse :: "string \<Rightarrow> jsval option" where
  "sample_parse s =
     (if s = ''[A]'' then Some (JArr [JObj [(''ghsa_id'', JStr ''GHSA-1'')]])
      else if s = ''{}'' then Some (JObj [])
      else if s = ''{A}'' then Some (sample_snapshot [sample_record ''GHSA-1''])
      else None)"

definition sample_stringify :: "jsval \<Rightarrow> string" where
  "sample_stringify v =
     (case get_prop v ''generatedAt'' of Inr (JStr t) \<Rightarrow> t | _ \<Rightarrow> ''?'')
     @ concat (map (\<lambda>a. case sourceId a of Inr (JStr k) \<Rightarrow> '' '' @ k | _ \<Rightarrow> '' ?'')
         (case get_prop v ''advisories'' of Inr advs \<Rightarrow> elements advs | Inl e \<Rightarrow> []))"

definition sample_env :: "response list \<Rightarrow> env" where
  "sample_env script =
     \<lparr>remote = (\<lambda>i p. if i < length script then script ! i else Ok []),
      now_s = (\<lambda>i. 1700000000),
      to_time = sample_time,
      oneYearAgo = 1000,
      iso_start = ''start'',
      iso_commit = ''commit'',
      json_parse = sample_parse,
      json_stringify = sample_stringify\<rparr>"

text \<open>A world whose server answers every request with 429, and an advisory whose one
  vulnerability entry has \<^verbatim>\<open>package: null\<close>.\<close>

definition sample_busy :: env where
  "sample_busy = (sample_env [])\<lparr>remote := (\<lambda>i p. Failed (HttpError 429 []))\<rparr>"

definition sample_unpackaged :: advisory where
  "sample_unpackaged =
     (sample_advisory ''GHSA-3'' 2000)
       \<lparr>vulnerabilities :=
          Some [\<lparr>package = None, vulnerable_version_range = JStr ''< 1.0'',
                 first_patched_version = JNull\<rparr>]\<rparr>"

section \<open>Properties of the rate-limit wait\<close>

lemma waitTime_bounds: "0 < waitTime hs now \<and> waitTime hs now < 3600"
  by (simp add: waitTime_def split: option.split)

lemma waitTime_retry_after_only:
  "header hs ''x-ratelimit-reset'' = None \<Longrightarrow> waitTime hs now = 60"
  by (simp add: waitTime_def retryAfter_def parseInt_def)

lemmas sample_defs = sample_env_def sample_advisory_def sample_time_def
lemmas loop_defs = iteration_def on_page_def on_error_def older_def initial_def

text \<open>
  C1. Claim: a 429 answer with \<^verbatim>\<open>retry-after: 5\<close> and no rate-limit-reset header makes
  the fetcher sleep about 5 seconds once and retry the same page, and no record is lost or
  duplicated; the wait comes from retry-after when present. On the code the retry-after
  value is never read: the condition of the conditional expression is the whole
  disjunction of the two headers, and the value is always computed from the reset header.
  In the run below the first request for page 1 is answered 429 with
  \<^verbatim>\<open>retry-after: 5\<close>: page 1 is asked again and the one advisory is fetched once, but
  the sleep is 60000 ms, not 5000 ms.
\<close>

theorem retry_after_5_sleeps_60:
  "fetch_loop (sample_env [Failed (HttpError 429 [(''retry-after'', ''5'')]),
                           Ok [sample_advisory ''GHSA-1'' 2000]]) 3 initial =
     Finished \<lparr>allNewAdvisories = [sample_advisory ''GHSA-1'' 2000], page = 2,
               keepFetching = True, requests = [1, 1, 2], sleeps = [60000, 1000]\<rparr>"
  by (simp add: numeral_3_eq_3 loop_defs sample_defs waitTime_def retryAfter_def header_def
      parseInt_def)

section \<open>Properties of the transformer\<close>

lemma transform_no_entries:
  assumes "vulnerabilities a = None \<or> vulnerabilities a = Some []"
  shows "\<exists>n. transform a = Inr n
          \<and> get_prop n ''packageName'' = Inr (JStr ''unknown'')
          \<and> get_prop n ''ecosystem'' = Inr (JStr ''npm'')
          \<and> get_prop n ''affectedVersionRanges'' = Inr (JArr [])
          \<and> get_prop n ''firstPatchedVersion'' = Inr JNull"
  using assms by (auto simp: transform_def package_fields_def firstPatchedVersion_def)

lemma transform_entries:
  assumes "vulnerabilities a = Some (v # vs)" and "package v = Some p"
  shows "\<exists>n. transform a = Inr n
          \<and> get_prop n ''affectedVersionRanges''
              = Inr (JArr (map vulnerable_version_range (v # vs)))"
  using assms by (simp add: transform_def package_fields_def)

lemma transform_null_package:
  assumes "vulnerabilities a = Some (v # vs)" and "package v = None"
  shows "transform a = Inl TypeError"
  using assms by (simp add: transform_def package_fields_def)

text \<open>
  What holds of the transformer. A raw record with no vulnerability entries (the field
  absent or an empty list) is transformed, without an error, into a record with package
  name \<^verbatim>\<open>unknown\<close>, ecosystem \<^verbatim>\<open>npm\<close>, no affected-version range and a \<^verbatim>\<open>null\<close>
  first patched version. When there are entries and the first one has a package, the
  affected-version ranges are the entries' ranges, one per entry, in the record's order.
\<close>

theorem transform_defaults_and_ranges:
  "(vulnerabilities a = None \<or> vulnerabilities a = Some [] \<longrightarrow>
      (\<exists>n. transform a = Inr n
          \<and> get_prop n ''packageName'' = Inr (JStr ''unknown'')
          \<and> get_prop n ''ecosystem'' = Inr (JStr ''npm'')
          \<and> get_prop n ''affectedVersionRanges'' = Inr (JArr [])
          \<and> get_prop n ''firstPatchedVersion'' = Inr JNull))
   \<and> (\<forall>v vs p. vulnerabilities a = Some (v # vs) \<and> package v = Some p \<longrightarrow>
      (\<exists>n. transform a = Inr n
          \<and> get_prop n ''affectedVersionRanges''
              = Inr (JArr (map vulnerable_version_range (v # vs)))))"
  using transform_no_entries [of a] transform_entries [of a] by blast

theorem transform_defaults_and_ranges_witness:
  "(\<exists>n. transform (sample_advisory ''GHSA-1'' 2000) = Inr n
          \<and> get_prop n ''packageName'' = Inr (JStr ''unknown'')
          \<and> get_prop n ''ecosystem'' = Inr (JStr ''npm'')
          \<and> get_prop n ''affectedVersionRanges'' = Inr (JArr [])
          \<and> get_prop n ''firstPatchedVersion'' = Inr JNull)
   \<and> (\<exists>n. transform ((sample_advisory ''GHSA-2'' 2000)
              \<lparr>vulnerabilities := Some [sample_vulnerability ''left-pad'' ''< 1.0'',
                                        sample_vulnerability ''left-pad'' ''>= 2.0'']\<rparr>) = Inr n
          \<and> get_prop n ''affectedVersionRanges'' = Inr (JArr [JStr ''< 1.0'', JStr ''>= 2.0'']))"
proof -
  let ?a = "sample_advisory ''GHSA-1'' 2000"
  let ?v1 = "sample_vulnerability ''left-pad'' ''< 1.0''"
  let ?v2 = "sample_vulnerability ''left-pad'' ''>= 2.0''"
  let ?b = "(sample_advisory ''GHSA-2'' 2000)\<lparr>vulnerabilities := Some [?v1, ?v2]\<rparr>"
  have a: "vulnerabilities ?a = None \<or> vulnerabilities ?a = Some []"
    by (simp add: sample_advisory_def)
  have b: "vulnerabilities ?b = Some (?v1 # [?v2])
           \<and> package ?v1 = Some \<lparr>name = ''left-pad'', ecosystem = ''npm''\<rparr>"
    by (simp add: sample_vulnerability_def)
  have r: "map vulnerable_version_range (?v1 # [?v2]) = [JStr ''< 1.0'', JStr ''>= 2.0'']"
    by (simp add: sample_vulnerability_def)
  from transform_defaults_and_ranges [of ?a] a
  have 1: "\<exists>n. transform ?a = Inr n
          \<and> get_prop n ''packageName'' = Inr (JStr ''unknown'')
          \<and> get_prop n ''ecosystem'' = Inr (JStr ''npm'')
          \<and> get_prop n ''affectedVersionRanges'' = Inr (JArr [])
          \<and> get_prop n ''firstPatchedVersion'' = Inr JNull"
    by blast
  from transform_defaults_and_ranges [of ?b] b
  have "\<exists>n. transform ?b = Inr n
          \<and> get_prop n ''affectedVersionRanges''
              = Inr (JArr (map vulnerable_version_range (?v1 # [?v2])))"
    by blast
  with r have 2: "\<exists>n. transform ?b = Inr n
          \<and> get_prop n ''affectedVersionRanges'' = Inr (JArr [JStr ''< 1.0'', JStr ''>= 2.0''])"
    by simp
  from 1 2 show ?thesis by blast
qed

text \<open>
  C7. Claim: a raw record without vulnerability entries is transformed to the defaults
  without an error, and when there are entries the affected-version ranges are the
  entries' ranges, one per entry and in order. The first half holds (above). The second
  fails on an entry whose \<^verbatim>\<open>package\<close> is \<^verbatim>\<open>null\<close>: the transformer reads
  \<^verbatim>\<open>advisory.vulnerabilities[0].package.name\<close> with no test of the package, unlike
  the other optional fields, so it throws, no record is produced, and the run ends
  with exit code 1 and nothing written.
\<close>

theorem null_package_throws:
  "transform sample_unpackaged = Inl TypeError
   \<and> run (sample_env [Ok [sample_unpackaged]]) 2 (File ''{A}'') =
       Some \<lparr>exit_code = 1, files_after = File ''{A}'', written = [],
             console_error = [RunFailed TypeError]\<rparr>"
  by (simp add: numeral_2_eq_2 run_def aborted_def transform_def package_fields_def
      sample_unpackaged_def loop_defs sample_defs)

section \<open>Properties of the fetch loop\<close>

lemma scan_page_fresh:
  "\<forall>a \<in> set xs. \<not> older w a \<Longrightarrow> scan_page w acc xs = (acc @ xs, True)"
  by (induction xs arbitrary: acc) simp_all

lemma scan_page_stop:
  "\<forall>a \<in> set xs. \<not> older w a \<Longrightarrow> older w b \<Longrightarrow>
     scan_page w acc (xs @ b # ys) = (acc @ xs, False)"
  by (induction xs arbitrary: acc) simp_all

lemma scan_page_accepts:
  "scan_page w acc xs = (acc', keep) \<Longrightarrow> \<forall>a \<in> set acc. \<not> older w a \<Longrightarrow>
     \<forall>a \<in> set acc'. \<not> older w a"
proof (induction xs arbitrary: acc)
  case Nil
  then show ?case by simp
next
  case (Cons x xs)
  show ?case
  proof (cases "older w x")
    case True
    with Cons.prems show ?thesis by simp
  next
    case False
    with Cons.prems have "scan_page w (acc @ [x]) xs = (acc', keep)" by simp
    moreover from False Cons.prems(2) have "\<forall>a \<in> set (acc @ [x]). \<not> older w a" by simp
    ultimately show ?thesis by (rule Cons.IH)
  qed
qed

lemma fetch_loop_running_keeps:
  "fetch_loop w k st = OutOfFuel st' \<Longrightarrow> keepFetching st'"
proof (induction k arbitrary: st)
  case 0
  then show ?case by (simp split: if_splits)
next
  case (Suc k)
  then show ?case by (cases "iteration w st") (simp_all split: if_splits)
qed

lemma fetch_loop_add:
  "fetch_loop w k st = OutOfFuel st' \<Longrightarrow> fetch_loop w (k + m) st = fetch_loop w m st'"
proof (induction k arbitrary: st)
  case 0
  then show ?case by (cases m) (simp_all split: if_splits)
next
  case (Suc k)
  then show ?case by (cases "iteration w st") (simp_all split: if_splits)
qed

lemma fetch_loop_settled:
  "\<not> running (fetch_loop w k st) \<Longrightarrow> fetch_loop w (k + m) st = fetch_loop w k st"
proof (induction k arbitrary: st)
  case 0
  then show ?case by (cases m) (simp_all split: if_splits)
next
  case (Suc k)
  then show ?case by (cases "iteration w st") (simp_all split: if_splits)
qed

lemma paged_request:
  assumes "paged w st" and "keepFetching st"
  shows "paged w (st\<lparr>requests := requests st @ [page st]\<rparr>)"
proof -
  from assms have "page st \<le> 500" and "1 \<le> page st"
    and "\<forall>p \<in> set (requests st). p \<le> page st" and "sorted (requests st)"
    by (simp_all add: paged_def)
  then have "sorted (requests st @ [page st])" by (simp add: sorted_append)
  with assms show ?thesis by (simp add: paged_def)
qed

lemma paged_accept:
  assumes "paged w st" and "\<forall>a \<in> set acc. \<not> older w a"
  shows "paged w (st\<lparr>allNewAdvisories := acc, keepFetching := False\<rparr>)"
  using assms by (simp add: paged_def)

lemma paged_advance:
  assumes "paged w st" and "\<forall>a \<in> set acc. \<not> older w a" and "page st < 500"
  shows "paged w (st\<lparr>allNewAdvisories := acc, keepFetching := True, page := Suc (page st),
                     sleeps := zs\<rparr>)"
proof -
  from assms(1) have "\<forall>p \<in> set (requests st). 1 \<le> p \<and> p \<le> 500 \<and> p \<le> page st"
    by (simp add: paged_def)
  then have "\<forall>p \<in> set (requests st). 1 \<le> p \<and> p \<le> 500 \<and> p \<le> Suc (page st)"
    by auto
  with assms show ?thesis by (simp add: paged_def)
qed

lemma paged_ceiling:
  assumes "paged w st" and "\<forall>a \<in> set acc. \<not> older w a"
  shows "paged w (st\<lparr>allNewAdvisories := acc, keepFetching := True, page := Suc (page st),
                     keepFetching := False\<rparr>)"
proof -
  from assms(1) have "\<forall>p \<in> set (requests st). 1 \<le> p \<and> p \<le> 500 \<and> p \<le> page st"
    by (simp add: paged_def)
  then have "\<forall>p \<in> set (requests st). 1 \<le> p \<and> p \<le> 500 \<and> p \<le> Suc (page st)"
    by auto
  with assms show ?thesis by (simp add: paged_def)
qed

lemma paged_sleep:
  "paged w st \<Longrightarrow> paged w (st\<lparr>sleeps := zs\<rparr>)"
  by (simp add: paged_def)

text \<open>The three ways a non-empty page is left.\<close>

lemma on_page_stop:
  assumes "data \<noteq> []" and "scan_page w (allNewAdvisories st) data = (acc, False)"
  shows "on_page w st data = Next (st\<lparr>allNewAdvisories := acc, keepFetching := False\<rparr>)"
  using assms by (simp add: on_page_def)

lemma on_page_advance:
  assumes "data \<noteq> []" and "scan_page w (allNewAdvisories st) data = (acc, True)"
    and "page st < 500"
  shows "on_page w st data =
           Next (st\<lparr>allNewAdvisories := acc, keepFetching := True, page := Suc (page st),
                    sleeps := sleeps st @ [1000]\<rparr>)"
  using assms by (simp add: on_page_def)

lemma on_page_ceiling:
  assumes "data \<noteq> []" and "scan_page w (allNewAdvisories st) data = (acc, True)"
    and "\<not> page st < 500"
  shows "on_page w st data =
           Next (st\<lparr>allNewAdvisories := acc, keepFetching := True, page := Suc (page st),
                    keepFetching := False\<rparr>)"
  using assms by (simp add: on_page_def)

lemma on_page_empty: "on_page w st [] = Break st"
  by (simp add: on_page_def)

lemma on_page_paged:
  assumes "paged w st"
  shows "paged w (state_of (on_page w st data))"
proof (cases "data = []")
  case True
  with assms show ?thesis by (simp add: on_page_empty)
next
  case False
  obtain acc keep where sp: "scan_page w (allNewAdvisories st) data = (acc, keep)"
    by (cases "scan_page w (allNewAdvisories st) data")
  from assms have "\<forall>a \<in> set (allNewAdvisories st). \<not> older w a" by (simp add: paged_def)
  with sp have acc: "\<forall>a \<in> set acc. \<not> older w a" by (rule scan_page_accepts)
  show ?thesis
  proof (cases keep)
    case False
    with \<open>data \<noteq> []\<close> sp have "on_page w st data = Next (st\<lparr>allNewAdvisories := acc, keepFetching := False\<rparr>)"
      by (simp add: on_page_stop)
    with paged_accept [OF assms acc] show ?thesis by simp
  next
    case True
    show ?thesis
    proof (cases "page st < 500")
      case True
      with \<open>data \<noteq> []\<close> sp \<open>keep\<close> have "on_page w st data =
           Next (st\<lparr>allNewAdvisories := acc, keepFetching := True, page := Suc (page st),
                    sleeps := sleeps st @ [1000]\<rparr>)"
        by (simp add: on_page_advance)
      with paged_advance [OF assms acc True] show ?thesis by simp
    next
      case False
      with \<open>data \<noteq> []\<close> sp \<open>keep\<close> have "on_page w st data =
           Next (st\<lparr>allNewAdvisories := acc, keepFetching := True, page := Suc (page st),
                    keepFetching := False\<rparr>)"
        by (simp add: on_page_ceiling)
      with paged_ceiling [OF assms acc] show ?thesis by simp
    qed
  qed
qed

lemma on_error_paged:
  assumes "paged w st"
  shows "paged w (state_of (on_error w i st f))"
proof (cases f)
  case (HttpError status hs)
  with assms paged_sleep [OF assms] show ?thesis by (simp add: on_error_def)
next
  case NetworkError
  with assms show ?thesis by (simp add: on_error_def)
qed

lemma iteration_paged:
  assumes "paged w st" and "keepFetching st"
  shows "paged w (state_of (iteration w st))"
proof -
  let ?st1 = "st\<lparr>requests := requests st @ [page st]\<rparr>"
  have p1: "paged w ?st1" using assms by (rule paged_request)
  show ?thesis
  proof (cases "remote w (length (requests st)) (page st)")
    case (Ok data)
    then have "iteration w st = on_page w ?st1 data" by (simp add: iteration_def)
    with on_page_paged [OF p1] show ?thesis by simp
  next
    case (Failed f)
    then have "iteration w st = on_error w (length (requests st)) ?st1 f"
      by (simp add: iteration_def)
    with on_error_paged [OF p1] show ?thesis by simp
  qed
qed

lemma fetch_loop_paged:
  "paged w st \<Longrightarrow> paged w (final (fetch_loop w fuel st))"
proof (induction fuel arbitrary: st)
  case 0
  then show ?case by simp
next
  case (Suc n)
  show ?case
  proof (cases "keepFetching st")
    case True
    from iteration_paged [OF Suc.prems True] Suc.IH True show ?thesis
      by (cases "iteration w st") simp_all
  next
    case False
    with Suc.prems show ?thesis by simp
  qed
qed

lemma paged_initial: "paged w initial"
  by (simp add: paged_def initial_def)


lemma fetch_loop_stopped: "\<not> keepFetching st \<Longrightarrow> fetch_loop w n st = Finished st"
  by (cases n) simp_all

lemma on_page_Next_keeps:
  assumes "on_page w st data = Next st'" and "keepFetching st'"
  shows "requests st' = requests st \<and> page st' = Suc (page st) \<and> page st < 500"
proof (cases "data = []")
  case True
  with assms show ?thesis by (simp add: on_page_empty)
next
  case False
  obtain acc keep where sp: "scan_page w (allNewAdvisories st) data = (acc, keep)"
    by (cases "scan_page w (allNewAdvisories st) data")
  show ?thesis
  proof (cases keep)
    case False
    with \<open>data \<noteq> []\<close> sp assms show ?thesis by (auto simp: on_page_stop)
  next
    case True
    show ?thesis
    proof (cases "page st < 500")
      case True
      with \<open>data \<noteq> []\<close> sp \<open>keep\<close> assms show ?thesis by (auto simp: on_page_advance)
    next
      case False
      with \<open>data \<noteq> []\<close> sp \<open>keep\<close> assms show ?thesis by (auto simp: on_page_ceiling)
    qed
  qed
qed

lemma on_error_Next:
  assumes "on_error w i st f = Next st'"
  shows "requests st' = requests st \<and> page st' = page st \<and> rate_limited (Failed f)"
  using assms
  by (cases f) (auto simp: on_error_def rate_limited_def split: if_splits)

lemma on_error_fatal:
  assumes "\<not> rate_limited (Failed f)"
  shows "on_error w i st f = Throw (RequestFailed f) st"
  using assms by (cases f) (simp_all add: on_error_def rate_limited_def)

lemma iteration_Next_keeps:
  assumes "iteration w st = Next st'" and "keepFetching st'"
  shows "length (requests st') = Suc (length (requests st))
         \<and> (page st' = Suc (page st) \<and> page st < 500
            \<or> page st' = page st \<and> rate_limited (remote w (length (requests st)) (page st)))"
proof (cases "remote w (length (requests st)) (page st)")
  case (Ok data)
  with assms(1) have "on_page w (st\<lparr>requests := requests st @ [page st]\<rparr>) data = Next st'"
    by (simp add: iteration_def)
  from on_page_Next_keeps [OF this assms(2)] show ?thesis by simp
next
  case (Failed f)
  with assms(1) have "on_error w (length (requests st)) (st\<lparr>requests := requests st @ [page st]\<rparr>) f = Next st'"
    by (simp add: iteration_def)
  from on_error_Next [OF this] Failed show ?thesis by simp
qed

lemma fetch_loop_terminates:
  assumes lim: "\<forall>i p. K \<le> i \<longrightarrow> \<not> rate_limited (remote w i p)"
  shows "(501 - page st) + (K - length (requests st)) < fuel \<Longrightarrow>
           \<not> running (fetch_loop w fuel st)"
proof (induction fuel arbitrary: st)
  case 0
  then show ?case by simp
next
  case (Suc n)
  show ?case
  proof (cases "keepFetching st")
    case False
    then show ?thesis by simp
  next
    case True
    show ?thesis
    proof (cases "iteration w st")
      case (Next st')
      show ?thesis
      proof (cases "keepFetching st'")
        case False
        with True Next show ?thesis by (simp add: fetch_loop_stopped)
      next
        case keep: True
        from iteration_Next_keeps [OF Next keep] lim
        have "(501 - page st') + (K - length (requests st'))
                < (501 - page st) + (K - length (requests st))"
          by (auto simp: not_le [symmetric])
        with Suc.prems have "(501 - page st') + (K - length (requests st')) < n" by simp
        then have "\<not> running (fetch_loop w n st')" by (rule Suc.IH)
        with True Next show ?thesis by simp
      qed
    next
      case (Break st')
      with True show ?thesis by simp
    next
      case (Throw e st')
      with True show ?thesis by simp
    qed
  qed
qed

lemma last_page_finishes:
  assumes "keepFetching st" and "page st = 500"
    and "remote w (length (requests st)) 500 = Ok data"
  shows "\<exists>st'. fetch_loop w (Suc n) st = Finished st' \<and> requests st' = requests st @ [500]
           \<and> sleeps st' = sleeps st"
proof -
  let ?st1 = "st\<lparr>requests := requests st @ [page st]\<rparr>"
  from assms have it: "iteration w st = on_page w ?st1 data" by (simp add: iteration_def)
  show ?thesis
  proof (cases "data = []")
    case True
    with it assms show ?thesis by (simp add: on_page_empty)
  next
    case False
    obtain acc keep where sp: "scan_page w (allNewAdvisories ?st1) data = (acc, keep)"
      by (cases "scan_page w (allNewAdvisories ?st1) data")
    show ?thesis
    proof (cases keep)
      case False
      with \<open>data \<noteq> []\<close> sp have "on_page w ?st1 data = Next (?st1\<lparr>allNewAdvisories := acc, keepFetching := False\<rparr>)"
        by (simp add: on_page_stop)
      with it assms show ?thesis by (simp add: fetch_loop_stopped)
    next
      case True
      from assms have "\<not> page ?st1 < 500" by simp
      with \<open>data \<noteq> []\<close> sp True have "on_page w ?st1 data =
           Next (?st1\<lparr>allNewAdvisories := acc, keepFetching := True, page := Suc (page ?st1),
                    keepFetching := False\<rparr>)"
        by (simp add: on_page_ceiling)
      with it assms show ?thesis by (simp add: fetch_loop_stopped)
    qed
  qed
qed

lemma page_at_cutoff:
  assumes keep: "keepFetching st"
    and resp: "remote w (length (requests st)) (page st) = Ok data"
    and times: "map (\<lambda>a. to_time w (published_at a)) data = map Some ts"
    and desc: "sorted_wrt (\<ge>) ts"
    and N: "Suc N < length ts" "ts ! N = oneYearAgo w" "ts ! Suc N < oneYearAgo w"
  shows "fetch_loop w (Suc n) st =
           Finished (st\<lparr>requests := requests st @ [page st],
                        allNewAdvisories := allNewAdvisories st @ take (Suc N) data,
                        keepFetching := False\<rparr>)"
proof -
  from times have len: "length data = length ts" by (metis length_map)
  have nth: "to_time w (published_at (data ! i)) = Some (ts ! i)" if "i < length ts" for i
  proof -
    from that len have "map (\<lambda>a. to_time w (published_at a)) data ! i = to_time w (published_at (data ! i))"
      by simp
    moreover from that have "map Some ts ! i = Some (ts ! i)" by simp
    ultimately show ?thesis using times by simp
  qed
  have fresh: "\<forall>a \<in> set (take (Suc N) data). \<not> older w a"
  proof
    fix a assume "a \<in> set (take (Suc N) data)"
    then obtain i where i: "i < Suc N" "i < length data" "a = data ! i"
      by (auto simp: in_set_conv_nth)
    have "ts ! N \<le> ts ! i"
    proof (cases "i = N")
      case True
      then show ?thesis by simp
    next
      case False
      with i have "i < N" by simp
      moreover from N have "N < length ts" by simp
      ultimately show ?thesis using desc by (simp add: sorted_wrt_iff_nth_less)
    qed
    with i len nth [of i] N(2) show "\<not> older w a" by (simp add: older_def)
  qed
  have old: "older w (data ! Suc N)"
    using nth [OF N(1)] N(3) by (simp add: older_def)
  from N(1) len have split: "data = take (Suc N) data @ data ! Suc N # drop (Suc (Suc N)) data"
    by (simp add: id_take_nth_drop)
  have "scan_page w acc data = (acc @ take (Suc N) data, False)" for acc
    using scan_page_stop [OF fresh old, of acc "drop (Suc (Suc N)) data"] split by simp
  moreover from split have "data \<noteq> []" by auto
  ultimately have "on_page w (st\<lparr>requests := requests st @ [page st]\<rparr>) data =
      Next (st\<lparr>requests := requests st @ [page st],
               allNewAdvisories := allNewAdvisories st @ take (Suc N) data,
               keepFetching := False\<rparr>)"
    by (simp add: on_page_stop)
  with keep resp show ?thesis by (simp add: iteration_def fetch_loop_stopped)
qed

lemma accepted_not_older:
  assumes "a \<in> set (allNewAdvisories (final (fetch_loop w fuel initial)))"
    and "to_time w (published_at a) = Some t"
  shows "oneYearAgo w \<le> t"
proof -
  from fetch_loop_paged [OF paged_initial, of w fuel] assms(1) have "\<not> older w a"
    by (simp add: paged_def)
  with assms(2) show ?thesis by (simp add: older_def)
qed


text \<open>
  C3. On a page sorted by descending publish time whose record \<open>N\<close> (counted from 0) is
  published exactly at the cutoff and whose record \<open>N + 1\<close> is older, the fetcher accepts
  the records up to \<open>N\<close>, leaves out record \<open>N + 1\<close> and all after it, and stops: the loop
  is finished with this page as its last request. And in every run, whatever the server
  sends, each accepted record with a publish time has it at or after the cutoff.
\<close>

theorem cutoff_boundary:
  "(keepFetching st
      \<and> remote w (length (requests st)) (page st) = Ok data
      \<and> map (\<lambda>a. to_time w (published_at a)) data = map Some ts
      \<and> sorted_wrt (\<ge>) ts
      \<and> Suc N < length ts \<and> ts ! N = oneYearAgo w \<and> ts ! Suc N < oneYearAgo w
    \<longrightarrow> fetch_loop w (Suc n) st =
          Finished (st\<lparr>requests := requests st @ [page st],
                       allNewAdvisories := allNewAdvisories st @ take (Suc N) data,
                       keepFetching := False\<rparr>))
   \<and> (\<forall>a \<in> set (allNewAdvisories (final (fetch_loop w fuel initial))).
        \<forall>t. to_time w (published_at a) = Some t \<longrightarrow> oneYearAgo w \<le> t)"
proof (intro conjI impI ballI allI)
  assume "keepFetching st
      \<and> remote w (length (requests st)) (page st) = Ok data
      \<and> map (\<lambda>a. to_time w (published_at a)) data = map Some ts
      \<and> sorted_wrt (\<ge>) ts
      \<and> Suc N < length ts \<and> ts ! N = oneYearAgo w \<and> ts ! Suc N < oneYearAgo w"
  then show "fetch_loop w (Suc n) st =
          Finished (st\<lparr>requests := requests st @ [page st],
                       allNewAdvisories := allNewAdvisories st @ take (Suc N) data,
                       keepFetching := False\<rparr>)"
    by (elim conjE) (rule page_at_cutoff; assumption)
next
  fix a t
  assume "a \<in> set (allNewAdvisories (final (fetch_loop w fuel initial)))"
    and "to_time w (published_at a) = Some t"
  then show "oneYearAgo w \<le> t" by (rule accepted_not_older)
qed

theorem cutoff_boundary_witness:
  "fetch_loop (sample_env [Ok [sample_advisory ''GHSA-1'' 3000, sample_advisory ''GHSA-2'' 1000,
                               sample_advisory ''GHSA-3'' 999, sample_advisory ''GHSA-4'' 500]])
       (Suc 0) initial =
     Finished \<lparr>allNewAdvisories = [sample_advisory ''GHSA-1'' 3000, sample_advisory ''GHSA-2'' 1000],
               page = 1, keepFetching = False, requests = [1], sleeps = []\<rparr>
   \<and> oneYearAgo (sample_env [Ok [sample_advisory ''GHSA-1'' 3000, sample_advisory ''GHSA-2'' 1000,
                               sample_advisory ''GHSA-3'' 999, sample_advisory ''GHSA-4'' 500]])
       \<le> 3000"
proof -
  let ?data = "[sample_advisory ''GHSA-1'' 3000, sample_advisory ''GHSA-2'' 1000,
                sample_advisory ''GHSA-3'' 999, sample_advisory ''GHSA-4'' 500]"
  let ?w = "sample_env [Ok ?data]"
  let ?ts = "[3000, 1000, 999, 500 :: int]"
  note inst = cutoff_boundary [of initial ?w ?data ?ts "Suc 0" 0 "Suc 0"]
  have hyp: "keepFetching initial
      \<and> remote ?w (length (requests initial)) (page initial) = Ok ?data
      \<and> map (\<lambda>a. to_time ?w (published_at a)) ?data = map Some ?ts
      \<and> sorted_wrt (\<ge>) ?ts
      \<and> Suc (Suc 0) < length ?ts \<and> ?ts ! Suc 0 = oneYearAgo ?w \<and> ?ts ! Suc (Suc 0) < oneYearAgo ?w"
    by (simp add: initial_def sample_defs)
  with inst have run: "fetch_loop ?w (Suc 0) initial =
          Finished (initial\<lparr>requests := requests initial @ [page initial],
                       allNewAdvisories := allNewAdvisories initial @ take (Suc (Suc 0)) ?data,
                       keepFetching := False\<rparr>)"
    by blast
  then have first: "fetch_loop ?w (Suc 0) initial =
     Finished \<lparr>allNewAdvisories = [sample_advisory ''GHSA-1'' 3000, sample_advisory ''GHSA-2'' 1000],
               page = 1, keepFetching = False, requests = [1], sleeps = []\<rparr>"
    by (simp add: initial_def)
  then have "sample_advisory ''GHSA-1'' 3000
      \<in> set (allNewAdvisories (final (fetch_loop ?w (Suc 0) initial)))"
    by simp
  moreover have "to_time ?w (published_at (sample_advisory ''GHSA-1'' 3000)) = Some 3000"
    by (simp add: sample_defs)
  ultimately have "oneYearAgo ?w \<le> 3000" using inst by blast
  with first show ?thesis by blast
qed

text \<open>
  C8, as amended. Whatever the server answers and however long the loop has run, every
  page it has asked for is one of the pages 1 to 500, asked in ascending order, so at
  most 500 different pages are requested; once page 500 has been answered the loop is
  finished with no further request and no pause. An answer 429 or 403 is retried on the
  same page with no cap on the retries, so the loop is sure to end only when such answers
  stop: when no request after the first \<open>K\<close> is answered 429 or 403, the loop ends within
  \<open>K + 501\<close> passes.
\<close>

theorem page_ceiling:
  "(\<forall>p \<in> set (requests (final (fetch_loop w fuel initial))). 1 \<le> p \<and> p \<le> 500)
   \<and> sorted (requests (final (fetch_loop w fuel initial)))
   \<and> card (set (requests (final (fetch_loop w fuel initial)))) \<le> 500
   \<and> (keepFetching st \<and> page st = 500 \<and> remote w (length (requests st)) 500 = Ok data
        \<longrightarrow> (\<exists>st'. fetch_loop w (Suc n) st = Finished st'
                 \<and> requests st' = requests st @ [500] \<and> sleeps st' = sleeps st))
   \<and> ((\<forall>i p. K \<le> i \<longrightarrow> \<not> rate_limited (remote w i p))
        \<longrightarrow> \<not> running (fetch_loop w (K + 501) initial))"
proof -
  let ?rs = "requests (final (fetch_loop w fuel initial))"
  have p: "paged w (final (fetch_loop w fuel initial))"
    using paged_initial by (rule fetch_loop_paged)
  then have range: "\<forall>p \<in> set ?rs. 1 \<le> p \<and> p \<le> 500" and sorted: "sorted ?rs"
    by (simp_all add: paged_def)
  from range have "set ?rs \<subseteq> {1..500}" by auto
  then have "card (set ?rs) \<le> card {1..500::nat}" by (intro card_mono) simp_all
  then have card: "card (set ?rs) \<le> 500" by simp
  have last: "keepFetching st \<and> page st = 500 \<and> remote w (length (requests st)) 500 = Ok data
        \<longrightarrow> (\<exists>st'. fetch_loop w (Suc n) st = Finished st'
                 \<and> requests st' = requests st @ [500] \<and> sleeps st' = sleeps st)"
    using last_page_finishes [of st w data n] by blast
  have ends: "(\<forall>i p. K \<le> i \<longrightarrow> \<not> rate_limited (remote w i p))
        \<longrightarrow> \<not> running (fetch_loop w (K + 501) initial)"
  proof
    assume lim: "\<forall>i p. K \<le> i \<longrightarrow> \<not> rate_limited (remote w i p)"
    have "(501 - page initial) + (K - length (requests initial)) < K + 501"
      by (simp add: initial_def)
    with lim show "\<not> running (fetch_loop w (K + 501) initial)"
      by (rule fetch_loop_terminates)
  qed
  from range sorted card last ends show ?thesis by blast
qed

theorem page_ceiling_witness:
  "\<not> running (fetch_loop (sample_env [Failed (HttpError 429 []),
                                       Ok [sample_advisory ''GHSA-1'' 3000],
                                       Failed (HttpError 403 []),
                                       Ok [sample_advisory ''GHSA-4'' 500]]) 504 initial)
   \<and> fetch_loop (sample_env [Failed (HttpError 429 []),
                              Ok [sample_advisory ''GHSA-1'' 3000],
                              Failed (HttpError 403 []),
                              Ok [sample_advisory ''GHSA-4'' 500]]) 4 initial =
       Finished \<lparr>allNewAdvisories = [sample_advisory ''GHSA-1'' 3000], page = 2,
                 keepFetching = False, requests = [1, 1, 2, 2],
                 sleeps = [60000, 1000, 60000]\<rparr>
   \<and> card (set (requests (final (fetch_loop (sample_env []) 501 initial)))) \<le> 500
   \<and> (\<exists>st'. fetch_loop (sample_env [Ok [sample_advisory ''GHSA-1'' 3000]]) (Suc 0)
              (initial\<lparr>page := 500\<rparr>) = Finished st'
            \<and> requests st' = [500] \<and> sleeps st' = [])"
proof -
  let ?script = "[Failed (HttpError 429 []), Ok [sample_advisory ''GHSA-1'' 3000],
                  Failed (HttpError 403 []), Ok [sample_advisory ''GHSA-4'' 500]]"
  let ?u = "sample_env ?script"
  let ?w = "sample_env []"
  let ?v = "sample_env [Ok [sample_advisory ''GHSA-1'' 3000]]"
  let ?st = "initial\<lparr>page := 500\<rparr>"
  have quiet: "\<forall>i p. 3 \<le> i \<longrightarrow> \<not> rate_limited (remote ?u i p)"
  proof (intro allI impI)
    fix i :: nat and p :: nat
    assume "3 \<le> i"
    show "\<not> rate_limited (remote ?u i p)"
    proof (cases "i = 3")
      case True
      then show ?thesis by (simp add: sample_env_def rate_limited_def)
    next
      case False
      with \<open>3 \<le> i\<close> have "\<not> i < 4" by simp
      then show ?thesis by (simp add: sample_env_def rate_limited_def)
    qed
  qed
  with page_ceiling [of ?u 0 ?st "[]" 0 3]
  have 0: "\<not> running (fetch_loop ?u 504 initial)" by simp
  have direct: "fetch_loop ?u 4 initial =
       Finished \<lparr>allNewAdvisories = [sample_advisory ''GHSA-1'' 3000], page = 2,
                 keepFetching = False, requests = [1, 1, 2, 2],
                 sleeps = [60000, 1000, 60000]\<rparr>"
    by (simp add: eval_nat_numeral loop_defs sample_defs waitTime_def retryAfter_def header_def)
  from page_ceiling [of ?w 501 ?st "[]" 0 0]
  have 1: "card (set (requests (final (fetch_loop ?w 501 initial)))) \<le> 500"
    by simp
  have "keepFetching ?st \<and> page ?st = 500
          \<and> remote ?v (length (requests ?st)) 500 = Ok [sample_advisory ''GHSA-1'' 3000]"
    by (simp add: initial_def sample_env_def)
  with page_ceiling [of ?v 0 ?st "[sample_advisory ''GHSA-1'' 3000]" 0 0]
  have "\<exists>st'. fetch_loop ?v (Suc 0) ?st = Finished st'
                 \<and> requests st' = requests ?st @ [500] \<and> sleeps st' = sleeps ?st"
    by blast
  then have 2: "\<exists>st'. fetch_loop ?v (Suc 0) ?st = Finished st'
                 \<and> requests st' = [500] \<and> sleeps st' = []"
    by (simp add: initial_def)
  show ?thesis
    by (rule conjI, rule 0, rule conjI, rule direct, rule conjI, rule 1, rule 2)
qed

lemma busy_step:
  "keepFetching st \<Longrightarrow>
     iteration sample_busy st =
       Next (st\<lparr>requests := requests st @ [page st], sleeps := sleeps st @ [60000]\<rparr>)"
  by (simp add: iteration_def on_error_def sample_busy_def sample_env_def waitTime_def
      retryAfter_def header_def)

lemma busy_keeps_running:
  "keepFetching st \<Longrightarrow> running (fetch_loop sample_busy fuel st)"
proof (induction fuel arbitrary: st)
  case 0
  then show ?case by simp
next
  case (Suc n)
  let ?st' = "st\<lparr>requests := requests st @ [page st], sleeps := sleeps st @ [60000]\<rparr>"
  from Suc.prems have "keepFetching ?st'" by simp
  then have "running (fetch_loop sample_busy n ?st')" by (rule Suc.IH)
  with Suc.prems busy_step [OF Suc.prems] show ?case by simp
qed

text \<open>
  C8 as stated fails on a server that answers every request with 429: each request
  ends, page 1 is asked again after each wait, and the loop is still running after any
  number of passes, so the run never ends.
\<close>

theorem always_429_never_ends:
  "\<not> (\<exists>fuel. \<not> running (fetch_loop sample_busy fuel initial))
   \<and> \<not> (\<exists>fuel r. run sample_busy fuel NoFile = Some r)"
proof -
  have keep: "keepFetching initial" by (simp add: initial_def)
  have 1: "running (fetch_loop sample_busy fuel initial)" for fuel
    using keep by (rule busy_keeps_running)
  have 2: "run sample_busy fuel NoFile = None" for fuel
    using 1 [of fuel] by (cases "fetch_loop sample_busy fuel initial") (simp_all add: run_def)
  from 1 2 show ?thesis by simp
qed

lemma fatal_failure_thrown:
  assumes "fetch_loop w k st0 = OutOfFuel st"
    and "remote w (length (requests st)) (page st) = Failed f"
    and "\<not> rate_limited (Failed f)"
  shows "fetch_loop w (k + Suc m) st0 =
           Thrown (RequestFailed f) (st\<lparr>requests := requests st @ [page st]\<rparr>)"
proof -
  from assms(1) have keep: "keepFetching st" by (rule fetch_loop_running_keeps)
  from assms(2) on_error_fatal [OF assms(3)]
  have "iteration w st = Throw (RequestFailed f) (st\<lparr>requests := requests st @ [page st]\<rparr>)"
    by (simp add: iteration_def)
  with keep have "fetch_loop w (Suc m) st =
      Thrown (RequestFailed f) (st\<lparr>requests := requests st @ [page st]\<rparr>)"
    by simp
  with fetch_loop_add [OF assms(1), of "Suc m"] show ?thesis by simp
qed

text \<open>
  C9. When the loop has reached a state \<open>st\<close> and the request made there fails with
  anything but a 429 or 403 answer, the error is thrown at once (that request is the
  last), and the run ends with exit code 1 after one line on the error console, with
  nothing written and the files as they were.
\<close>

theorem fatal_failure_aborts:
  assumes "fetch_loop w k initial = OutOfFuel st"
    and "remote w (length (requests st)) (page st) = Failed f"
    and "\<not> rate_limited (Failed f)"
  shows "fetch_loop w (k + Suc m) initial =
           Thrown (RequestFailed f) (st\<lparr>requests := requests st @ [page st]\<rparr>)
         \<and> run w (k + Suc m) fs =
           Some \<lparr>exit_code = 1, files_after = fs, written = [],
                 console_error = [RunFailed (RequestFailed f)]\<rparr>"
  using fatal_failure_thrown [OF assms, of m] by (simp add: run_def aborted_def)

theorem fatal_failure_aborts_witness:
  "run (sample_env [Ok [sample_advisory ''GHSA-1'' 3000], Failed (HttpError 500 [])]) 2
       (File ''{A}'') =
     Some \<lparr>exit_code = 1, files_after = File ''{A}'', written = [],
           console_error = [RunFailed (RequestFailed (HttpError 500 []))]\<rparr>"
proof -
  let ?w = "sample_env [Ok [sample_advisory ''GHSA-1'' 3000], Failed (HttpError 500 [])]"
  let ?st = "\<lparr>allNewAdvisories = [sample_advisory ''GHSA-1'' 3000], page = 2,
              keepFetching = True, requests = [1], sleeps = [1000]\<rparr>"
  have 1: "fetch_loop ?w (Suc 0) initial = OutOfFuel ?st"
    by (simp add: loop_defs sample_defs)
  have 2: "remote ?w (length (requests ?st)) (page ?st) = Failed (HttpError 500 [])"
    by (simp add: sample_env_def)
  have 3: "\<not> rate_limited (Failed (HttpError 500 []))"
    by (simp add: rate_limited_def)
  from fatal_failure_aborts [OF 1 2 3, of 0 "File ''{A}''"] show ?thesis
    by (simp add: numeral_2_eq_2)
qed


section \<open>Properties of the merge\<close>

lemma map_of_set_prop: "map_of (set_prop props n v) n = Some v"
  by (induction props) auto

lemma set_prop_twice: "set_prop (set_prop props n v) n v' = set_prop props n v'"
  by (induction props) auto

lemma map_throwing_append:
  "map_throwing f xs = Inr a \<Longrightarrow> map_throwing f ys = Inr b \<Longrightarrow>
     map_throwing f (xs @ ys) = Inr (a @ b)"
  by (induction xs arbitrary: a) (auto split: sum.splits)

lemma map_throwing_Cons:
  "map_throwing f (x # xs) = Inr ks \<Longrightarrow>
     \<exists>k ks'. f x = Inr k \<and> map_throwing f xs = Inr ks' \<and> ks = k # ks'"
  by (auto split: sum.splits)

lemma advisories_shape:
  assumes "get_prop S ''advisories'' = Inr (JArr xs)"
  shows "\<exists>props. S = JObj props \<and> map_of props ''advisories'' = Some (JArr xs)"
  using assms by (cases S) (auto split: option.splits if_splits)

lemma get_assign_advisories:
  assumes "get_prop S ''advisories'' = Inr (JArr xs)"
  shows "get_prop (assign S ''advisories'' v) ''advisories'' = Inr v"
proof -
  from advisories_shape [OF assms] obtain props where "S = JObj props" by blast
  then show ?thesis by (simp add: map_of_set_prop)
qed

lemma assign_twice:
  "assign (assign S n v) n v' = assign S n v'"
  by (cases S) (simp_all add: set_prop_twice)

lemma merge_loop_known:
  "map_throwing sourceId ts = Inr kt \<Longrightarrow> set kt \<subseteq> set ids \<Longrightarrow>
     merge_loop advs ids c ts = Inr (advs, ids, c)"
proof (induction ts arbitrary: kt)
  case Nil
  then show ?case by simp
next
  case (Cons t ts)
  from map_throwing_Cons [OF Cons.prems(1)] obtain k ks'
    where k: "sourceId t = Inr k" "map_throwing sourceId ts = Inr ks'" "kt = k # ks'"
    by blast
  with Cons.prems(2) have "k \<in> set ids" and "set ks' \<subseteq> set ids" by simp_all
  with k Cons.IH [of ks'] show ?case by simp
qed

lemma merge_loop_result:
  "map_throwing sourceId ts = Inr kt \<Longrightarrow>
     \<exists>new kn. merge_loop advs ids c ts = Inr (advs @ new, ids @ kn, c + length new)
       \<and> map_throwing sourceId new = Inr kn
       \<and> subseq new ts
       \<and> distinct kn
       \<and> set kn \<inter> set ids = {}
       \<and> set ids \<union> set kn = set ids \<union> set kt"
proof (induction ts arbitrary: advs ids c kt)
  case Nil
  then show ?case by simp
next
  case (Cons t ts)
  from map_throwing_Cons [OF Cons.prems] obtain k ks'
    where k: "sourceId t = Inr k" "map_throwing sourceId ts = Inr ks'" "kt = k # ks'"
    by blast
  show ?case
  proof (cases "k \<in> set ids")
    case True
    from Cons.IH [OF k(2), of advs ids c] obtain new kn where
      r: "merge_loop advs ids c ts = Inr (advs @ new, ids @ kn, c + length new)"
        "map_throwing sourceId new = Inr kn" "subseq new ts" "distinct kn"
        "set kn \<inter> set ids = {}" "set ids \<union> set kn = set ids \<union> set ks'"
      by blast
    from r(1) k(1) True
    have "merge_loop advs ids c (t # ts) = Inr (advs @ new, ids @ kn, c + length new)"
      by simp
    moreover from r(3) have "subseq new (t # ts)" by (rule list_emb_Cons)
    moreover from r(6) True k(3) have "set ids \<union> set kn = set ids \<union> set kt" by auto
    ultimately show ?thesis using r(2,4,5) by blast
  next
    case False
    from Cons.IH [OF k(2), of "advs @ [t]" "ids @ [k]" "c + 1"] obtain new kn where
      r: "merge_loop (advs @ [t]) (ids @ [k]) (c + 1) ts
            = Inr ((advs @ [t]) @ new, (ids @ [k]) @ kn, c + 1 + length new)"
        "map_throwing sourceId new = Inr kn" "subseq new ts" "distinct kn"
        "set kn \<inter> set (ids @ [k]) = {}"
        "set (ids @ [k]) \<union> set kn = set (ids @ [k]) \<union> set ks'"
      by blast
    from r(1) k(1) False
    have "merge_loop advs ids c (t # ts)
            = Inr (advs @ (t # new), ids @ (k # kn), c + length (t # new))"
      by simp
    moreover from r(2) k(1) have "map_throwing sourceId (t # new) = Inr (k # kn)" by simp
    moreover from r(3) have "subseq (t # new) (t # ts)" by simp
    moreover from r(4,5) have "distinct (k # kn)" by auto
    moreover from r(5) False have "set (k # kn) \<inter> set ids = {}" by auto
    moreover from r(6) k(3) have "set ids \<union> set (k # kn) = set ids \<union> set kt" by auto
    ultimately show ?thesis by blast
  qed
qed

lemma merge_loop_keys:
  "merge_loop advs ids c ts = Inr r \<Longrightarrow> \<exists>kt. map_throwing sourceId ts = Inr kt"
proof (induction ts arbitrary: advs ids c)
  case Nil
  then show ?case by simp
next
  case (Cons t ts)
  then obtain k where k: "sourceId t = Inr k" by (cases "sourceId t") simp_all
  show ?case
  proof (cases "k \<in> set ids")
    case True
    with Cons.prems k have "merge_loop advs ids c ts = Inr r" by simp
    from Cons.IH [OF this] k show ?thesis by auto
  next
    case False
    with Cons.prems k have "merge_loop (advs @ [t]) (ids @ [k]) (c + 1) ts = Inr r" by simp
    from Cons.IH [OF this] k show ?thesis by auto
  qed
qed


lemma merge_result:
  assumes "get_prop S ''advisories'' = Inr (JArr xs)"
    and "map_throwing sourceId xs = Inr ks"
    and "map_throwing sourceId B = Inr kb"
  shows "\<exists>new kn. merge S B = Inr (assign S ''advisories'' (JArr (xs @ new)), length new)
           \<and> map_throwing sourceId new = Inr kn
           \<and> subseq new B
           \<and> distinct kn
           \<and> set kn \<inter> set ks = {}
           \<and> set ks \<union> set kn = set ks \<union> set kb"
proof -
  from merge_loop_result [OF assms(3), of xs ks 0] obtain new kn where
    r: "merge_loop xs ks 0 B = Inr (xs @ new, ks @ kn, 0 + length new)"
      "map_throwing sourceId new = Inr kn" "subseq new B" "distinct kn"
      "set kn \<inter> set ks = {}" "set ks \<union> set kn = set ks \<union> set kb"
    by blast
  from assms(1,2) r(1)
  have "merge S B = Inr (assign S ''advisories'' (JArr (xs @ new)), length new)"
    by (simp add: merge_def)
  with r(2-6) show ?thesis by blast
qed

lemma merge_Inr:
  assumes "merge S B = Inr (S1, n)"
  shows "\<exists>xs ks kb. get_prop S ''advisories'' = Inr (JArr xs)
           \<and> map_throwing sourceId xs = Inr ks \<and> map_throwing sourceId B = Inr kb"
proof -
  from assms obtain advs where a: "get_prop S ''advisories'' = Inr advs"
    by (cases "get_prop S ''advisories''") (simp_all add: merge_def)
  with assms obtain ks where k: "js_map sourceId advs = Inr ks"
    by (cases "js_map sourceId advs") (simp_all add: merge_def)
  then obtain xs where x: "advs = JArr xs" by (cases advs) simp_all
  from assms a k obtain r where "merge_loop (elements advs) ks 0 B = Inr r"
    by (cases "merge_loop (elements advs) ks 0 B") (simp_all add: merge_def)
  from merge_loop_keys [OF this] obtain kb where "map_throwing sourceId B = Inr kb" by blast
  with a k x show ?thesis by simp
qed

text \<open>
  C4. The merge is idempotent: when merging a batch \<open>B\<close> into a snapshot \<open>S\<close> gives
  \<open>S1\<close>, merging \<open>B\<close> into \<open>S1\<close> gives \<open>S1\<close> again and adds no record.
\<close>

theorem merge_idempotent:
  assumes "merge S B = Inr (S1, n)"
  shows "merge S1 B = Inr (S1, 0)"
proof -
  from merge_Inr [OF assms] obtain xs ks kb where
    s: "get_prop S ''advisories'' = Inr (JArr xs)" "map_throwing sourceId xs = Inr ks"
      "map_throwing sourceId B = Inr kb"
    by blast
  from merge_result [OF s] assms obtain new kn where
    r: "S1 = assign S ''advisories'' (JArr (xs @ new))" "map_throwing sourceId new = Inr kn"
      "set ks \<union> set kn = set ks \<union> set kb"
    by auto
  from s(1) r(1) have g: "get_prop S1 ''advisories'' = Inr (JArr (xs @ new))"
    by (simp add: get_assign_advisories)
  from s(2) r(2) have k: "map_throwing sourceId (xs @ new) = Inr (ks @ kn)"
    by (rule map_throwing_append)
  from r(3) have "set kb \<subseteq> set (ks @ kn)" by auto
  with s(3) have "merge_loop (xs @ new) (ks @ kn) 0 B = Inr (xs @ new, ks @ kn, 0)"
    by (rule merge_loop_known)
  with g k have "merge S1 B = Inr (assign S1 ''advisories'' (JArr (xs @ new)), 0)"
    by (simp add: merge_def)
  with r(1) show ?thesis by (simp add: assign_twice)
qed

lemmas merge_defs = merge_def sourceId_def sample_snapshot_def sample_record_def

theorem merge_idempotent_witness:
  "merge (sample_snapshot [sample_record ''GHSA-1'', sample_record ''GHSA-2''])
         [sample_record ''GHSA-1'', sample_record ''GHSA-2'', sample_record ''GHSA-2'']
     = Inr (sample_snapshot [sample_record ''GHSA-1'', sample_record ''GHSA-2''], 0)"
proof -
  have "merge (sample_snapshot [sample_record ''GHSA-1''])
         [sample_record ''GHSA-1'', sample_record ''GHSA-2'', sample_record ''GHSA-2'']
     = Inr (sample_snapshot [sample_record ''GHSA-1'', sample_record ''GHSA-2''], 1)"
    by (simp add: merge_defs)
  then show ?thesis by (rule merge_idempotent)
qed

text \<open>
  C5. For a snapshot whose records have pairwise distinct \<^verbatim>\<open>sourceId\<close> keys and any
  batch (also one that repeats a key), the merge succeeds; the merged collection is the
  existing records, unchanged and in their order, followed by records of the batch in the
  batch's order; its keys are pairwise distinct, and they are the old keys and the keys
  of the batch.
\<close>

theorem merge_keeps_keys_distinct:
  assumes "get_prop S ''advisories'' = Inr (JArr xs)"
    and "map_throwing sourceId xs = Inr ks"
    and "map_throwing sourceId B = Inr kb"
    and "distinct ks"
  shows "\<exists>new kn. merge S B = Inr (assign S ''advisories'' (JArr (xs @ new)), length new)
           \<and> get_prop (assign S ''advisories'' (JArr (xs @ new))) ''advisories''
               = Inr (JArr (xs @ new))
           \<and> subseq new B
           \<and> map_throwing sourceId (xs @ new) = Inr (ks @ kn)
           \<and> distinct (ks @ kn)
           \<and> set (ks @ kn) = set ks \<union> set kb"
proof -
  from merge_result [OF assms(1-3)] obtain new kn where
    r: "merge S B = Inr (assign S ''advisories'' (JArr (xs @ new)), length new)"
      "map_throwing sourceId new = Inr kn" "subseq new B" "distinct kn"
      "set kn \<inter> set ks = {}" "set ks \<union> set kn = set ks \<union> set kb"
    by blast
  from assms(1) have "get_prop (assign S ''advisories'' (JArr (xs @ new))) ''advisories''
               = Inr (JArr (xs @ new))"
    by (rule get_assign_advisories)
  moreover from assms(2) r(2) have "map_throwing sourceId (xs @ new) = Inr (ks @ kn)"
    by (rule map_throwing_append)
  moreover from assms(4) r(4,5) have "distinct (ks @ kn)" by auto
  moreover from r(6) have "set (ks @ kn) = set ks \<union> set kb" by simp
  ultimately show ?thesis using r(1,3) by blast
qed

theorem merge_keeps_keys_distinct_witness:
  "\<exists>new kn. merge (sample_snapshot [sample_record ''GHSA-1''])
               [sample_record ''GHSA-2'', sample_record ''GHSA-1'', sample_record ''GHSA-2'']
           = Inr (sample_snapshot ([sample_record ''GHSA-1''] @ new), length new)
       \<and> subseq new [sample_record ''GHSA-2'', sample_record ''GHSA-1'', sample_record ''GHSA-2'']
       \<and> map_throwing sourceId ([sample_record ''GHSA-1''] @ new) = Inr ([JStr ''GHSA-1''] @ kn)
       \<and> distinct ([JStr ''GHSA-1''] @ kn)
       \<and> set ([JStr ''GHSA-1''] @ kn) = {JStr ''GHSA-1'', JStr ''GHSA-2''}"
proof -
  let ?S = "sample_snapshot [sample_record ''GHSA-1'']"
  let ?B = "[sample_record ''GHSA-2'', sample_record ''GHSA-1'', sample_record ''GHSA-2'']"
  have 1: "get_prop ?S ''advisories'' = Inr (JArr [sample_record ''GHSA-1''])"
    by (simp add: sample_snapshot_def)
  have 2: "map_throwing sourceId [sample_record ''GHSA-1''] = Inr [JStr ''GHSA-1'']"
    by (simp add: sourceId_def sample_record_def)
  have 3: "map_throwing sourceId ?B = Inr [JStr ''GHSA-2'', JStr ''GHSA-1'', JStr ''GHSA-2'']"
    by (simp add: sourceId_def sample_record_def)
  have 4: "distinct [JStr ''GHSA-1'']" by simp
  have 5: "assign ?S ''advisories'' (JArr ys) = sample_snapshot ys" for ys
    by (simp add: sample_snapshot_def)
  have 6: "set [JStr ''GHSA-1''] \<union> set [JStr ''GHSA-2'', JStr ''GHSA-1'', JStr ''GHSA-2'']
             = {JStr ''GHSA-1'', JStr ''GHSA-2''}"
    by auto
  from merge_keeps_keys_distinct [OF 1 2 3 4] show ?thesis
    unfolding 5 6 by blast
qed



section \<open>Properties of the whole run\<close>

lemma map_of_set_prop_other: "m \<noteq> n \<Longrightarrow> map_of (set_prop props n v) m = map_of props m"
  by (induction props) auto

lemma map_throwing_length: "map_throwing f xs = Inr ys \<Longrightarrow> length ys = length xs"
  by (induction xs arbitrary: ys) (auto split: sum.splits)

lemma transform_sourceId:
  assumes "transform a = Inr t"
  shows "sourceId t = Inr (JStr (ghsa_id a))"
proof (cases "package_fields a")
  case (Inl e)
  with assms show ?thesis by (simp add: transform_def)
next
  case (Inr r)
  obtain p e rs where "r = (p, e, rs)" by (cases r)
  with Inr assms show ?thesis by (auto simp: transform_def sourceId_def)
qed

lemma map_transform_keys:
  "map_throwing transform rs = Inr ts \<Longrightarrow>
     map_throwing sourceId ts = Inr (map (\<lambda>a. JStr (ghsa_id a)) rs)"
proof (induction rs arbitrary: ts)
  case Nil
  then show ?case by simp
next
  case (Cons r rs)
  from map_throwing_Cons [OF Cons.prems] obtain t ts'
    where t: "transform r = Inr t" "map_throwing transform rs = Inr ts'" "ts = t # ts'"
    by blast
  have "sourceId t = Inr (JStr (ghsa_id r))" using t(1) by (rule transform_sourceId)
  moreover have "map_throwing sourceId ts' = Inr (map (\<lambda>a. JStr (ghsa_id a)) rs)"
    using t(2) by (rule Cons.IH)
  ultimately show ?case unfolding t(3) by simp
qed

lemma file_content_ensure_dir: "file_content (ensure_dir fs) = file_content fs"
  by (cases fs) simp_all

lemma merge_adds_nothing_iff:
  assumes "map_throwing sourceId new = Inr kn" and "set kn \<inter> set ks = {}"
    and "set ks \<union> set kn = set ks \<union> set kb"
  shows "new = [] \<longleftrightarrow> set kb \<subseteq> set ks"
proof
  assume "new = []"
  with assms(1) have "kn = []" by simp
  have "set kb \<subseteq> set ks \<union> set kb" by (rule Un_upper2)
  also have "\<dots> = set ks \<union> set kn" by (rule assms(3) [symmetric])
  also from \<open>kn = []\<close> have "\<dots> = set ks" by simp
  finally show "set kb \<subseteq> set ks" .
next
  assume sub: "set kb \<subseteq> set ks"
  have "set kn \<subseteq> set ks \<union> set kn" by (rule Un_upper2)
  also have "\<dots> = set ks \<union> set kb" by (rule assms(3))
  also from sub have "\<dots> = set ks" by (rule Un_absorb2)
  finally have "set kn \<subseteq> set ks" .
  then have "set kn \<inter> set ks = set kn" by (rule Int_absorb2)
  with assms(2) have "kn = []" by simp
  with map_throwing_length [OF assms(1)] show "new = []" by simp
qed

lemma run_merged:
  assumes "fetch_loop w fuel initial = Finished st"
    and "map_throwing transform (allNewAdvisories st) = Inr ts"
    and "load w (ensure_dir fs) = (S, logs)"
    and "merge S ts = Inr (S1, n)"
  shows "run w fuel fs =
           Some \<lparr>exit_code = 0, files_after = fst (commit w S1 n (ensure_dir fs)),
                 written = snd (commit w S1 n (ensure_dir fs)), console_error = logs\<rparr>"
  using assms by (simp add: run_def split: prod.splits)

lemma run_merge_failed:
  assumes "fetch_loop w fuel initial = Finished st"
    and "map_throwing transform (allNewAdvisories st) = Inr ts"
    and "load w (ensure_dir fs) = (S, logs)"
    and "merge S ts = Inl e"
  shows "run w fuel fs = Some (aborted (ensure_dir fs) logs e)"
  using assms by (simp add: run_def)

lemma run_nothing_new:
  assumes "fetch_loop w fuel initial = Finished st"
    and "map_throwing transform (allNewAdvisories st) = Inr ts"
    and "load w (ensure_dir fs) = (S, logs)"
    and "get_prop S ''advisories'' = Inr (JArr xs)"
    and "map_throwing sourceId xs = Inr ks"
    and "\<forall>a \<in> set (allNewAdvisories st). JStr (ghsa_id a) \<in> set ks"
  shows "run w fuel fs =
           Some \<lparr>exit_code = 0, files_after = ensure_dir fs, written = [],
                 console_error = logs\<rparr>"
proof -
  let ?kb = "map (\<lambda>a. JStr (ghsa_id a)) (allNewAdvisories st)"
  from assms(2) have kb: "map_throwing sourceId ts = Inr ?kb" by (rule map_transform_keys)
  from assms(6) have "set ?kb \<subseteq> set ks" by auto
  with kb have "merge_loop xs ks 0 ts = Inr (xs, ks, 0)" by (rule merge_loop_known)
  with assms(4,5) have "merge S ts = Inr (assign S ''advisories'' (JArr xs), 0)"
    by (simp add: merge_def)
  from run_merged [OF assms(1-3) this] show ?thesis by (simp add: commit_def)
qed

lemma run_something_new:
  assumes "fetch_loop w fuel initial = Finished st"
    and "map_throwing transform (allNewAdvisories st) = Inr ts"
    and "load w (ensure_dir fs) = (S, logs)"
    and "get_prop S ''advisories'' = Inr (JArr xs)"
    and "map_throwing sourceId xs = Inr ks"
    and "\<not> (\<forall>a \<in> set (allNewAdvisories st). JStr (ghsa_id a) \<in> set ks)"
  shows "\<exists>new kn. new \<noteq> [] \<and> subseq new ts
           \<and> map_throwing sourceId new = Inr kn \<and> distinct kn \<and> set kn \<inter> set ks = {}
           \<and> set ks \<union> set kn = set ks \<union> (\<lambda>a. JStr (ghsa_id a)) ` set (allNewAdvisories st)
           \<and> run w fuel fs =
               Some \<lparr>exit_code = 0,
                     files_after = File (json_stringify w
                       (assign (assign S ''advisories'' (JArr (xs @ new)))
                          ''generatedAt'' (JStr (iso_commit w)))),
                     written = [json_stringify w
                       (assign (assign S ''advisories'' (JArr (xs @ new)))
                          ''generatedAt'' (JStr (iso_commit w)))],
                     console_error = logs\<rparr>"
proof -
  let ?kb = "map (\<lambda>a. JStr (ghsa_id a)) (allNewAdvisories st)"
  from assms(2) have kb: "map_throwing sourceId ts = Inr ?kb" by (rule map_transform_keys)
  from merge_result [OF assms(4,5) kb] obtain new kn where
    r: "merge S ts = Inr (assign S ''advisories'' (JArr (xs @ new)), length new)"
      "map_throwing sourceId new = Inr kn" "subseq new ts" "distinct kn"
      "set kn \<inter> set ks = {}" "set ks \<union> set kn = set ks \<union> set ?kb"
    by blast
  from assms(6) have "\<not> set ?kb \<subseteq> set ks" by auto
  with merge_adds_nothing_iff [OF r(2,5,6)] have new: "new \<noteq> []" by simp
  then have "0 < length new" by simp
  with run_merged [OF assms(1-3) r(1)]
  have "run w fuel fs =
               Some \<lparr>exit_code = 0,
                     files_after = File (json_stringify w
                       (assign (assign S ''advisories'' (JArr (xs @ new)))
                          ''generatedAt'' (JStr (iso_commit w)))),
                     written = [json_stringify w
                       (assign (assign S ''advisories'' (JArr (xs @ new)))
                          ''generatedAt'' (JStr (iso_commit w)))],
                     console_error = logs\<rparr>"
    by (simp add: commit_def Let_def)
  moreover from r(6) have "set ks \<union> set kn
      = set ks \<union> (\<lambda>a. JStr (ghsa_id a)) ` set (allNewAdvisories st)"
    by simp
  ultimately show ?thesis using new r(2-5)
    by (intro exI [of _ new] exI [of _ kn] conjI)
qed

lemma saved_snapshot_fields:
  assumes "get_prop S ''advisories'' = Inr (JArr xs)"
  shows "get_prop (assign (assign S ''advisories'' (JArr ys)) ''generatedAt'' (JStr t))
             ''generatedAt'' = Inr (JStr t)
         \<and> get_prop (assign (assign S ''advisories'' (JArr ys)) ''generatedAt'' (JStr t))
             ''advisories'' = Inr (JArr ys)"
proof -
  from advisories_shape [OF assms] obtain props where "S = JObj props" by blast
  then show ?thesis by (simp add: map_of_set_prop map_of_set_prop_other)
qed

text \<open>
  C2. In a run that gets as far as the merge: when the key of every fetched record is
  already in the loaded snapshot, nothing is written and the snapshot file has the
  content it had (so its \<^verbatim>\<open>generatedAt\<close> is not touched); otherwise the file is written
  once, with \<^verbatim>\<open>generatedAt\<close> set to the current time and at least one record appended.
\<close>

theorem no_op_write_suppression:
  assumes "fetch_loop w fuel initial = Finished st"
    and "map_throwing transform (allNewAdvisories st) = Inr ts"
    and "load w (ensure_dir fs) = (S, logs)"
    and "get_prop S ''advisories'' = Inr (JArr xs)"
    and "map_throwing sourceId xs = Inr ks"
  shows "file_content (ensure_dir fs) = file_content fs \<and>
         (if \<forall>a \<in> set (allNewAdvisories st). JStr (ghsa_id a) \<in> set ks
          then run w fuel fs =
                 Some \<lparr>exit_code = 0, files_after = ensure_dir fs, written = [],
                       console_error = logs\<rparr>
          else \<exists>S1 new. run w fuel fs =
                 Some \<lparr>exit_code = 0, files_after = File (json_stringify w S1),
                       written = [json_stringify w S1], console_error = logs\<rparr>
               \<and> get_prop S1 ''generatedAt'' = Inr (JStr (iso_commit w))
               \<and> get_prop S1 ''advisories'' = Inr (JArr (xs @ new)) \<and> new \<noteq> [])"
proof (cases "\<forall>a \<in> set (allNewAdvisories st). JStr (ghsa_id a) \<in> set ks")
  case True
  have "run w fuel fs =
          Some \<lparr>exit_code = 0, files_after = ensure_dir fs, written = [],
                console_error = logs\<rparr>"
    using assms True by (rule run_nothing_new)
  then show ?thesis unfolding if_P [OF True] by (simp add: file_content_ensure_dir)
next
  case False
  from run_something_new [OF assms False] obtain new where
    new: "new \<noteq> []" "run w fuel fs =
               Some \<lparr>exit_code = 0,
                     files_after = File (json_stringify w
                       (assign (assign S ''advisories'' (JArr (xs @ new)))
                          ''generatedAt'' (JStr (iso_commit w)))),
                     written = [json_stringify w
                       (assign (assign S ''advisories'' (JArr (xs @ new)))
                          ''generatedAt'' (JStr (iso_commit w)))],
                     console_error = logs\<rparr>"
    by blast
  let ?S1 = "assign (assign S ''advisories'' (JArr (xs @ new))) ''generatedAt''
               (JStr (iso_commit w))"
  from saved_snapshot_fields [OF assms(4), of "xs @ new" "iso_commit w"] new
  have "run w fuel fs =
                 Some \<lparr>exit_code = 0, files_after = File (json_stringify w ?S1),
                       written = [json_stringify w ?S1], console_error = logs\<rparr>
               \<and> get_prop ?S1 ''generatedAt'' = Inr (JStr (iso_commit w))
               \<and> get_prop ?S1 ''advisories'' = Inr (JArr (xs @ new)) \<and> new \<noteq> []"
    by simp
  then have "\<exists>S1 new. run w fuel fs =
                 Some \<lparr>exit_code = 0, files_after = File (json_stringify w S1),
                       written = [json_stringify w S1], console_error = logs\<rparr>
               \<and> get_prop S1 ''generatedAt'' = Inr (JStr (iso_commit w))
               \<and> get_prop S1 ''advisories'' = Inr (JArr (xs @ new)) \<and> new \<noteq> []"
    by (intro exI [of _ ?S1] exI [of _ new])
  then show ?thesis unfolding if_not_P [OF False] by (simp add: file_content_ensure_dir)
qed


lemma sample_transform:
  "\<exists>t. map_throwing transform [sample_advisory g n] = Inr [t] \<and> sourceId t = Inr (JStr g)"
  by (simp add: transform_def package_fields_def sample_advisory_def sourceId_def)

lemmas run_sample_defs = loop_defs sample_defs sample_parse_def sample_snapshot_def
  sample_record_def

lemmas eval_defs = run_def load_def merge_def commit_def default_snapshot_def sourceId_def
  transform_def package_fields_def firstPatchedVersion_def sample_stringify_def Let_def
  run_sample_defs

theorem no_op_write_suppression_witness:
  "run (sample_env [Ok [sample_advisory ''GHSA-1'' 2000]]) 2 (File ''{A}'') =
     Some \<lparr>exit_code = 0, files_after = File ''{A}'', written = [], console_error = []\<rparr>
   \<and> (\<exists>S1 new. run (sample_env [Ok [sample_advisory ''GHSA-2'' 2000]]) 2 (File ''{A}'') =
          Some \<lparr>exit_code = 0, files_after = File (sample_stringify S1),
                written = [sample_stringify S1], console_error = []\<rparr>
        \<and> get_prop S1 ''generatedAt'' = Inr (JStr ''commit'')
        \<and> get_prop S1 ''advisories'' = Inr (JArr ([sample_record ''GHSA-1''] @ new))
        \<and> new \<noteq> [])
   \<and> run (sample_env [Ok [sample_advisory ''GHSA-2'' 2000]]) 2 (File ''{A}'') =
       Some \<lparr>exit_code = 0, files_after = File ''commit GHSA-1 GHSA-2'',
             written = [''commit GHSA-1 GHSA-2''], console_error = []\<rparr>"
proof -
  let ?S = "sample_snapshot [sample_record ''GHSA-1'']"
  have shape: "get_prop ?S ''advisories'' = Inr (JArr [sample_record ''GHSA-1''])"
    by (simp add: sample_snapshot_def)
  have keys: "map_throwing sourceId [sample_record ''GHSA-1''] = Inr [JStr ''GHSA-1'']"
    by (simp add: sourceId_def sample_record_def)
  have first: "run (sample_env [Ok [sample_advisory ''GHSA-1'' 2000]]) 2 (File ''{A}'') =
     Some \<lparr>exit_code = 0, files_after = File ''{A}'', written = [], console_error = []\<rparr>"
  proof -
    let ?w = "sample_env [Ok [sample_advisory ''GHSA-1'' 2000]]"
    let ?st = "\<lparr>allNewAdvisories = [sample_advisory ''GHSA-1'' 2000], page = 2,
                keepFetching = True, requests = [1, 2], sleeps = [1000]\<rparr>"
    have 1: "fetch_loop ?w 2 initial = Finished ?st"
      by (simp add: numeral_2_eq_2 loop_defs sample_defs)
    from sample_transform [of "''GHSA-1''" 2000] obtain t where
      2: "map_throwing transform (allNewAdvisories ?st) = Inr [t]" by auto
    have 3: "load ?w (ensure_dir (File ''{A}'')) = (?S, [])"
      by (simp add: load_def sample_env_def sample_parse_def sample_snapshot_def)
    have 4: "\<forall>a \<in> set (allNewAdvisories ?st). JStr (ghsa_id a) \<in> set [JStr ''GHSA-1'']"
      by (simp add: sample_advisory_def)
    from no_op_write_suppression [OF 1 2 3 shape keys] show ?thesis
      unfolding if_P [OF 4] by simp
  qed
  have second: "\<exists>S1 new. run (sample_env [Ok [sample_advisory ''GHSA-2'' 2000]]) 2 (File ''{A}'') =
          Some \<lparr>exit_code = 0, files_after = File (sample_stringify S1),
                written = [sample_stringify S1], console_error = []\<rparr>
        \<and> get_prop S1 ''generatedAt'' = Inr (JStr ''commit'')
        \<and> get_prop S1 ''advisories'' = Inr (JArr ([sample_record ''GHSA-1''] @ new))
        \<and> new \<noteq> []"
  proof -
    let ?w = "sample_env [Ok [sample_advisory ''GHSA-2'' 2000]]"
    let ?st = "\<lparr>allNewAdvisories = [sample_advisory ''GHSA-2'' 2000], page = 2,
                keepFetching = True, requests = [1, 2], sleeps = [1000]\<rparr>"
    have 1: "fetch_loop ?w 2 initial = Finished ?st"
      by (simp add: numeral_2_eq_2 loop_defs sample_defs)
    from sample_transform [of "''GHSA-2''" 2000] obtain t where
      2: "map_throwing transform (allNewAdvisories ?st) = Inr [t]" by auto
    have 3: "load ?w (ensure_dir (File ''{A}'')) = (?S, [])"
      by (simp add: load_def sample_env_def sample_parse_def sample_snapshot_def)
    have 4: "\<not> (\<forall>a \<in> set (allNewAdvisories ?st). JStr (ghsa_id a) \<in> set [JStr ''GHSA-1''])"
      by (simp add: sample_advisory_def)
    have 5: "json_stringify ?w = sample_stringify" "iso_commit ?w = ''commit''"
      by (simp_all add: sample_env_def)
    from no_op_write_suppression [OF 1 2 3 shape keys] show ?thesis
      unfolding if_not_P [OF 4] 5 by simp
  qed
  have third: "run (sample_env [Ok [sample_advisory ''GHSA-2'' 2000]]) 2 (File ''{A}'') =
       Some \<lparr>exit_code = 0, files_after = File ''commit GHSA-1 GHSA-2'',
             written = [''commit GHSA-1 GHSA-2''], console_error = []\<rparr>"
    by (simp add: numeral_2_eq_2 eval_defs)
  from first second third show ?thesis by (intro conjI)
qed

lemma load_legacy:
  assumes "json_parse w content = Some (JArr old)"
  shows "load w (ensure_dir (File content)) = (default_snapshot w, [])"
  using assms by (simp add: load_def)

lemma default_snapshot_shape:
  "get_prop (default_snapshot w) ''advisories'' = Inr (JArr [])"
  by (simp add: default_snapshot_def)

lemma default_snapshot_saved:
  "assign (assign (default_snapshot w) ''advisories'' (JArr ys)) ''generatedAt'' (JStr t) =
     JObj [(''schemaVersion'', JStr ''1.0''), (''generatedAt'', JStr t), (''advisories'', JArr ys)]"
  by (simp add: default_snapshot_def)

text \<open>
  C6, as amended. When the snapshot file holds a bare list, the fetch ends without a
  thrown error and every fetched record is transformed, the run ends with exit code 0
  and the old list is not merged: the loader starts from the empty snapshot. If at least
  one record was fetched, the run writes a versioned snapshot whose records are exactly
  the fetched and transformed records, one per key and in fetch order. If none was
  fetched, nothing is written and the file keeps the bare list.
\<close>

theorem legacy_list_replaced:
  assumes "json_parse w content = Some (JArr old)"
    and "fetch_loop w fuel initial = Finished st"
    and "map_throwing transform (allNewAdvisories st) = Inr ts"
  shows "load w (File content) = (default_snapshot w, [])
         \<and> (allNewAdvisories st = [] \<longrightarrow>
              run w fuel (File content) =
                Some \<lparr>exit_code = 0, files_after = File content, written = [],
                      console_error = []\<rparr>)
         \<and> (allNewAdvisories st \<noteq> [] \<longrightarrow>
              (\<exists>new kn. new \<noteq> [] \<and> subseq new ts
                 \<and> map_throwing sourceId new = Inr kn \<and> distinct kn
                 \<and> set kn = (\<lambda>a. JStr (ghsa_id a)) ` set (allNewAdvisories st)
                 \<and> run w fuel (File content) =
                     Some \<lparr>exit_code = 0,
                           files_after = File (json_stringify w
                             (JObj [(''schemaVersion'', JStr ''1.0''),
                                    (''generatedAt'', JStr (iso_commit w)),
                                    (''advisories'', JArr new)])),
                           written = [json_stringify w
                             (JObj [(''schemaVersion'', JStr ''1.0''),
                                    (''generatedAt'', JStr (iso_commit w)),
                                    (''advisories'', JArr new)])],
                           console_error = []\<rparr>))"
proof -
  have keys: "map_throwing sourceId [] = Inr []" by simp
  have loaded: "load w (File content) = (default_snapshot w, [])"
    using load_legacy [OF assms(1)] by simp
  have none: "allNewAdvisories st = [] \<longrightarrow>
              run w fuel (File content) =
                Some \<lparr>exit_code = 0, files_after = File content, written = [],
                      console_error = []\<rparr>"
  proof
    assume "allNewAdvisories st = []"
    then have "\<forall>a \<in> set (allNewAdvisories st). JStr (ghsa_id a) \<in> set []" by simp
    from run_nothing_new [OF assms(2,3) load_legacy [OF assms(1)] default_snapshot_shape keys this]
    show "run w fuel (File content) =
                Some \<lparr>exit_code = 0, files_after = File content, written = [],
                      console_error = []\<rparr>"
      by simp
  qed
  have some: "allNewAdvisories st \<noteq> [] \<longrightarrow>
              (\<exists>new kn. new \<noteq> [] \<and> subseq new ts
                 \<and> map_throwing sourceId new = Inr kn \<and> distinct kn
                 \<and> set kn = (\<lambda>a. JStr (ghsa_id a)) ` set (allNewAdvisories st)
                 \<and> run w fuel (File content) =
                     Some \<lparr>exit_code = 0,
                           files_after = File (json_stringify w
                             (JObj [(''schemaVersion'', JStr ''1.0''),
                                    (''generatedAt'', JStr (iso_commit w)),
                                    (''advisories'', JArr new)])),
                           written = [json_stringify w
                             (JObj [(''schemaVersion'', JStr ''1.0''),
                                    (''generatedAt'', JStr (iso_commit w)),
                                    (''advisories'', JArr new)])],
                           console_error = []\<rparr>)"
  proof
    assume ne: "allNewAdvisories st \<noteq> []"
    then have some: "\<not> (\<forall>a \<in> set (allNewAdvisories st). JStr (ghsa_id a) \<in> set [])"
      by (cases "allNewAdvisories st") auto
    from run_something_new [OF assms(2,3) load_legacy [OF assms(1)] default_snapshot_shape keys some]
    obtain new kn where
      r: "new \<noteq> []" "subseq new ts" "map_throwing sourceId new = Inr kn" "distinct kn"
        "set [] \<union> set kn = set [] \<union> (\<lambda>a. JStr (ghsa_id a)) ` set (allNewAdvisories st)"
        "run w fuel (File content) =
                 Some \<lparr>exit_code = 0,
                       files_after = File (json_stringify w
                         (assign (assign (default_snapshot w) ''advisories'' (JArr ([] @ new)))
                            ''generatedAt'' (JStr (iso_commit w)))),
                       written = [json_stringify w
                         (assign (assign (default_snapshot w) ''advisories'' (JArr ([] @ new)))
                            ''generatedAt'' (JStr (iso_commit w)))],
                       console_error = []\<rparr>"
      by (elim exE conjE)
    from r(5) have "set kn = (\<lambda>a. JStr (ghsa_id a)) ` set (allNewAdvisories st)" by simp
    moreover from r(6) have "run w fuel (File content) =
                 Some \<lparr>exit_code = 0,
                       files_after = File (json_stringify w
                         (JObj [(''schemaVersion'', JStr ''1.0''),
                                (''generatedAt'', JStr (iso_commit w)),
                                (''advisories'', JArr new)])),
                       written = [json_stringify w
                         (JObj [(''schemaVersion'', JStr ''1.0''),
                                (''generatedAt'', JStr (iso_commit w)),
                                (''advisories'', JArr new)])],
                       console_error = []\<rparr>"
      by (simp add: default_snapshot_saved)
    ultimately show "\<exists>new kn. new \<noteq> [] \<and> subseq new ts
                 \<and> map_throwing sourceId new = Inr kn \<and> distinct kn
                 \<and> set kn = (\<lambda>a. JStr (ghsa_id a)) ` set (allNewAdvisories st)
                 \<and> run w fuel (File content) =
                     Some \<lparr>exit_code = 0,
                           files_after = File (json_stringify w
                             (JObj [(''schemaVersion'', JStr ''1.0''),
                                    (''generatedAt'', JStr (iso_commit w)),
                                    (''advisories'', JArr new)])),
                           written = [json_stringify w
                             (JObj [(''schemaVersion'', JStr ''1.0''),
                                    (''generatedAt'', JStr (iso_commit w)),
                                    (''advisories'', JArr new)])],
                           console_error = []\<rparr>"
      using r(1-4) by (intro exI [of _ new] exI [of _ kn] conjI)
  qed
  show ?thesis by (rule conjI, rule loaded, rule conjI, rule none, rule some)
qed

theorem legacy_list_replaced_witness:
  "(\<exists>new kn. new \<noteq> []
     \<and> map_throwing sourceId new = Inr kn \<and> distinct kn \<and> set kn = {JStr ''GHSA-2''}
     \<and> run (sample_env [Ok [sample_advisory ''GHSA-2'' 2000, sample_advisory ''GHSA-2'' 1500]])
            2 (File ''[A]'') =
         Some \<lparr>exit_code = 0,
               files_after = File (sample_stringify
                 (JObj [(''schemaVersion'', JStr ''1.0''), (''generatedAt'', JStr ''commit''),
                        (''advisories'', JArr new)])),
               written = [sample_stringify
                 (JObj [(''schemaVersion'', JStr ''1.0''), (''generatedAt'', JStr ''commit''),
                        (''advisories'', JArr new)])],
               console_error = []\<rparr>)
   \<and> run (sample_env [Ok [sample_advisory ''GHSA-2'' 2000, sample_advisory ''GHSA-2'' 1500]])
          2 (File ''[A]'') =
       Some \<lparr>exit_code = 0, files_after = File ''commit GHSA-2'', written = [''commit GHSA-2''],
             console_error = []\<rparr>
   \<and> run (sample_env [Ok [sample_advisory ''GHSA-4'' 500]]) (Suc 0) (File ''[A]'') =
       Some \<lparr>exit_code = 0, files_after = File ''[A]'', written = [], console_error = []\<rparr>"
proof -
  let ?w = "sample_env [Ok [sample_advisory ''GHSA-2'' 2000, sample_advisory ''GHSA-2'' 1500]]"
  let ?st = "\<lparr>allNewAdvisories = [sample_advisory ''GHSA-2'' 2000, sample_advisory ''GHSA-2'' 1500],
              page = 2, keepFetching = True, requests = [1, 2], sleeps = [1000]\<rparr>"
  have 1: "json_parse ?w ''[A]'' = Some (JArr [JObj [(''ghsa_id'', JStr ''GHSA-1'')]])"
    by (simp add: sample_env_def sample_parse_def)
  have 2: "fetch_loop ?w 2 initial = Finished ?st"
    by (simp add: numeral_2_eq_2 loop_defs sample_defs)
  have "\<exists>ts. map_throwing transform (allNewAdvisories ?st) = Inr ts"
    by (simp add: transform_def package_fields_def sample_advisory_def)
  then obtain ts where 3: "map_throwing transform (allNewAdvisories ?st) = Inr ts" ..
  have 4: "allNewAdvisories ?st \<noteq> []" by simp
  have 5: "json_stringify ?w = sample_stringify" "iso_commit ?w = ''commit''"
    by (simp_all add: sample_env_def)
  have 6: "(\<lambda>a. JStr (ghsa_id a)) ` set (allNewAdvisories ?st) = {JStr ''GHSA-2''}"
    by (simp add: sample_advisory_def)
  from legacy_list_replaced [OF 1 2 3] 4 have general: "\<exists>new kn. new \<noteq> []
     \<and> map_throwing sourceId new = Inr kn \<and> distinct kn \<and> set kn = {JStr ''GHSA-2''}
     \<and> run ?w 2 (File ''[A]'') =
         Some \<lparr>exit_code = 0,
               files_after = File (sample_stringify
                 (JObj [(''schemaVersion'', JStr ''1.0''), (''generatedAt'', JStr ''commit''),
                        (''advisories'', JArr new)])),
               written = [sample_stringify
                 (JObj [(''schemaVersion'', JStr ''1.0''), (''generatedAt'', JStr ''commit''),
                        (''advisories'', JArr new)])],
               console_error = []\<rparr>"
    unfolding 5 6 by blast
  have direct: "run ?w 2 (File ''[A]'') =
       Some \<lparr>exit_code = 0, files_after = File ''commit GHSA-2'', written = [''commit GHSA-2''],
             console_error = []\<rparr>"
    by (simp add: numeral_2_eq_2 eval_defs)
  let ?v = "sample_env [Ok [sample_advisory ''GHSA-4'' 500]]"
  let ?sv = "\<lparr>allNewAdvisories = [], page = 1, keepFetching = False, requests = [1],
              sleeps = []\<rparr>"
  have 7: "json_parse ?v ''[A]'' = Some (JArr [JObj [(''ghsa_id'', JStr ''GHSA-1'')]])"
    by (simp add: sample_env_def sample_parse_def)
  have 8: "fetch_loop ?v (Suc 0) initial = Finished ?sv"
    by (simp add: loop_defs sample_defs)
  have 9: "map_throwing transform (allNewAdvisories ?sv) = Inr []" by simp
  have 10: "allNewAdvisories ?sv = []" by simp
  from legacy_list_replaced [OF 7 8 9] 10
  have unfetched: "run ?v (Suc 0) (File ''[A]'') =
       Some \<lparr>exit_code = 0, files_after = File ''[A]'', written = [], console_error = []\<rparr>"
    by blast
  show ?thesis by (rule conjI, rule general, rule conjI, rule direct, rule unfetched)
qed

text \<open>
  C6 as stated fails when nothing is fetched: the run below finds the legacy list, the
  first page of the server is empty, and the run ends with exit code 0 without writing,
  so the file is still the legacy list.
\<close>

theorem legacy_list_left_when_nothing_fetched:
  "json_parse (sample_env []) ''[A]'' = Some (JArr [JObj [(''ghsa_id'', JStr ''GHSA-1'')]])
   \<and> run (sample_env []) 1 (File ''[A]'') =
       Some \<lparr>exit_code = 0, files_after = File ''[A]'', written = [], console_error = []\<rparr>"
  by (simp add: run_def load_def merge_def commit_def default_snapshot_def sourceId_def
      run_sample_defs)

lemma merge_unshaped:
  assumes "\<not> is_array v" and "\<not> has_advisories_list v"
  shows "merge v ts = Inl TypeError"
proof (cases v)
  case (JObj props)
  show ?thesis
  proof (cases "map_of props ''advisories''")
    case None
    with JObj show ?thesis by (simp add: merge_def)
  next
    case (Some x)
    with JObj assms(2) have "\<not> is_array x"
      by (cases x) (simp_all add: has_advisories_list_def)
    then have "js_map sourceId x = Inl TypeError" by (cases x) simp_all
    with JObj Some show ?thesis by (simp add: merge_def)
  qed
next
  case (JArr xs)
  with assms(1) show ?thesis by simp
qed (simp_all add: merge_def)

lemma load_parsed:
  assumes "json_parse w content = Some v" and "\<not> is_array v"
  shows "load w (File content) = (v, [])"
  using assms by (simp add: load_def)

lemma run_unshaped:
  assumes "json_parse w content = Some v" and "\<not> is_array v" and "\<not> has_advisories_list v"
    and "run w fuel (File content) = Some r"
  shows "exit_code r = 1 \<and> files_after r = File content \<and> written r = []"
proof (cases "fetch_loop w fuel initial")
  case (OutOfFuel st)
  with assms(4) show ?thesis by (simp add: run_def)
next
  case (Thrown e st)
  with assms(4) show ?thesis by (auto simp: run_def aborted_def)
next
  case (Finished st)
  show ?thesis
  proof (cases "map_throwing transform (allNewAdvisories st)")
    case (Inl e)
    with Finished assms(4) show ?thesis by (auto simp: run_def aborted_def)
  next
    case (Inr ts)
    have "load w (ensure_dir (File content)) = (v, [])"
      using load_parsed [OF assms(1,2)] by simp
    from run_merge_failed [OF Finished Inr this merge_unshaped [OF assms(2,3)]] assms(4)
    show ?thesis by (auto simp: aborted_def)
  qed
qed

text \<open>
  C10. When the snapshot file parses to a value that is neither an array nor an object
  with an \<^verbatim>\<open>advisories\<close> array, the loader takes the value as it is, the merge throws
  a \<^verbatim>\<open>TypeError\<close> for every batch, and every run that ends does so with exit code 1
  and the file untouched; after a successful fetch and transform that is how it ends.
\<close>

theorem unvalidated_snapshot_aborts:
  assumes "json_parse w content = Some v" and "\<not> is_array v" and "\<not> has_advisories_list v"
  shows "load w (File content) = (v, [])
         \<and> (\<forall>ts. merge v ts = Inl TypeError)
         \<and> (\<forall>st ts. fetch_loop w fuel initial = Finished st
               \<and> map_throwing transform (allNewAdvisories st) = Inr ts
             \<longrightarrow> run w fuel (File content) =
                   Some \<lparr>exit_code = 1, files_after = File content, written = [],
                         console_error = [RunFailed TypeError]\<rparr>)
         \<and> (\<forall>r. run w fuel (File content) = Some r
             \<longrightarrow> exit_code r = 1 \<and> files_after r = File content \<and> written r = [])"
proof -
  have 1: "load w (File content) = (v, [])" using assms(1,2) by (rule load_parsed)
  have 2: "\<forall>ts. merge v ts = Inl TypeError"
    using merge_unshaped [OF assms(2,3)] by simp
  have 3: "\<forall>st ts. fetch_loop w fuel initial = Finished st
               \<and> map_throwing transform (allNewAdvisories st) = Inr ts
             \<longrightarrow> run w fuel (File content) =
                   Some \<lparr>exit_code = 1, files_after = File content, written = [],
                         console_error = [RunFailed TypeError]\<rparr>"
  proof (intro allI impI)
    fix st ts
    assume a: "fetch_loop w fuel initial = Finished st
               \<and> map_throwing transform (allNewAdvisories st) = Inr ts"
    have "load w (ensure_dir (File content)) = (v, [])"
      using 1 by simp
    from run_merge_failed [OF conjunct1 [OF a] conjunct2 [OF a] this merge_unshaped [OF assms(2,3)]]
    show "run w fuel (File content) =
                   Some \<lparr>exit_code = 1, files_after = File content, written = [],
                         console_error = [RunFailed TypeError]\<rparr>"
      by (simp add: aborted_def)
  qed
  have 4: "\<forall>r. run w fuel (File content) = Some r
             \<longrightarrow> exit_code r = 1 \<and> files_after r = File content \<and> written r = []"
    using run_unshaped [OF assms] by simp
  from 1 2 3 4 show ?thesis by (intro conjI)
qed

theorem unvalidated_snapshot_aborts_witness:
  "load (sample_env []) (File ''{}'') = (JObj [], [])
   \<and> merge (JObj []) [] = Inl TypeError
   \<and> run (sample_env []) 1 (File ''{}'') =
       Some \<lparr>exit_code = 1, files_after = File ''{}'', written = [],
             console_error = [RunFailed TypeError]\<rparr>"
proof -
  let ?w = "sample_env []"
  have 1: "json_parse ?w ''{}'' = Some (JObj [])"
    by (simp add: sample_env_def sample_parse_def)
  have 2: "\<not> is_array (JObj [])" by simp
  have 3: "\<not> has_advisories_list (JObj [])" by (simp add: has_advisories_list_def)
  have 4: "fetch_loop ?w 1 initial = Finished (initial\<lparr>requests := [1]\<rparr>)
           \<and> map_throwing transform (allNewAdvisories (initial\<lparr>requests := [1]\<rparr>)) = Inr []"
    by (simp add: loop_defs sample_defs)
  from unvalidated_snapshot_aborts [OF 1 2 3, of 1] 4 show ?thesis by blast
qed

section \<open>Where the second copy differs\<close>

text \<open>With a server that always has one more page of recent advisories, the copy without
  the page test is still running after any number of passes and has asked for every page
  up to that number; in particular it asks for page 501.\<close>

lemma part000_no_ceiling:
  assumes "\<forall>i p. \<exists>a. remote w i p = Ok [a] \<and> \<not> older w a"
  shows "keepFetching st \<Longrightarrow>
           \<exists>st'. fetch_loop_part000 w n st = OutOfFuel st'
             \<and> page st' = page st + n
             \<and> requests st' = requests st @ [page st ..< page st + n]"
proof (induction n arbitrary: st)
  case 0
  then show ?case by simp
next
  case (Suc n)
  from assms obtain a where a: "remote w (length (requests st)) (page st) = Ok [a]"
    "\<not> older w a" by blast
  let ?st' = "st\<lparr>requests := requests st @ [page st],
                 allNewAdvisories := allNewAdvisories st @ [a], keepFetching := True,
                 page := page st + 1, sleeps := sleeps st @ [1000]\<rparr>"
  from a have it: "iteration_part000 w st = Next ?st'"
    by (simp add: iteration_part000_def on_page_part000_def)
  have "keepFetching ?st'" by simp
  from Suc.IH [OF this] obtain st'' where
    r: "fetch_loop_part000 w n ?st' = OutOfFuel st''" "page st'' = page ?st' + n"
      "requests st'' = requests ?st' @ [page ?st' ..< page ?st' + n]"
    by blast
  from Suc.prems it r(1) have "fetch_loop_part000 w (Suc n) st = OutOfFuel st''" by simp
  moreover from r(2) have "page st'' = page st + Suc n" by simp
  moreover have "[page st ..< page st + Suc n] = page st # [Suc (page st) ..< page st + Suc n]"
    by (rule upt_conv_Cons) simp
  with r(3) have "requests st'' = requests st @ [page st ..< page st + Suc n]"
    by (simp del: upt_Suc)
  ultimately show ?case by blast
qed

lemma part000_asks_for_page_501:
  assumes "\<forall>i p. \<exists>a. remote w i p = Ok [a] \<and> \<not> older w a"
  shows "\<exists>st'. fetch_loop_part000 w 501 initial = OutOfFuel st' \<and> 501 \<in> set (requests st')"
proof -
  have "keepFetching initial" by (simp add: initial_def)
  from part000_no_ceiling [OF assms this, of 501] obtain st' where
    r: "fetch_loop_part000 w 501 initial = OutOfFuel st'"
      "requests st' = requests initial @ [page initial ..< page initial + 501]"
    by blast
  from r(2) have "501 \<in> set (requests st')" by (simp add: initial_def)
  with r(1) show ?thesis by blast
qed

text \<open>With two stored records and a batch of one known record, nothing is added, yet the
  copy writes the file, with a new \<^verbatim>\<open>generatedAt\<close>.\<close>

lemma part000_rewrites_without_additions:
  "commit_part000 (sample_env [])
       (sample_snapshot [sample_record ''GHSA-1'', sample_record ''GHSA-2'']) 0
       [sample_record ''GHSA-1''] (File ''{A}'')
     = (File ''commit GHSA-1 GHSA-2'', [''commit GHSA-1 GHSA-2''])"
  by (simp add: commit_part000_def sample_snapshot_def sample_env_def sample_stringify_def
      sample_record_def sourceId_def Let_def)

end
